theory Spec2Isabelle
  imports Complex_Main
begin

chapter \<open>The crawl-and-scrape pipeline of your-agent\<close>

text \<open>
  A shallow embedding of the parts of the repository that the specification talks about:
  \<^item> \<^verbatim>\<open>utils/retry.py\<close>: the retry wrapper;
  \<^item> \<^verbatim>\<open>web_scraper/crawler/url_utils.py\<close>: URL normalisation and the same-domain test,
    together with the functions of \<^verbatim>\<open>urllib.parse\<close> they call;
  \<^item> \<^verbatim>\<open>web_scraper/crawler/queue_manager.py\<close>: the two deduplicating queues;
  \<^item> \<^verbatim>\<open>web_scraper/crawler/crawler.py\<close>: the traversal loop;
  \<^item> \<^verbatim>\<open>web_scraper/scraper_runner.py\<close> and \<^verbatim>\<open>web_scraper/scraper/scraper_worker.py\<close>:
    the orchestrator and the worker loop.

  The definitions come first, the theorems after them.
\<close>

section \<open>Definitions: \<^verbatim>\<open>utils/retry.py\<close>\<close>

text \<open>
  \<^verbatim>\<open>
  async def retry_async(coro_func, retries=3, delay=2, backoff=2):
      for attempt in range(1, retries + 1):
          try:
              return await coro_func()
          except Exception as e:
              if attempt == retries:
                  raise
              wait = delay * (backoff ** (attempt - 1)) + random.uniform(0, 1)
              print(...)
              await asyncio.sleep(wait)
  \<close>

  The wrapped operation is stateful, so it is modelled by its outcome at each call:
  \<open>coro_func k\<close> is what the call made in attempt \<open>k\<close> does, \<open>Inl e\<close> when it raises the
  exception \<open>e\<close> (an instance of \<^verbatim>\<open>Exception\<close>, which is what the \<^verbatim>\<open>except\<close> clause
  catches) and \<open>Inr v\<close> when it returns \<open>v\<close>. A Python value that may be \<^verbatim>\<open>None\<close> is an
  \<open>option\<close>. The random source is the function \<open>jitter\<close>: \<open>jitter k\<close> is the value that
  \<^verbatim>\<open>random.uniform(0, 1)\<close> yields in attempt \<open>k\<close>. Python's numbers are read as real numbers
  (\<open>delay\<close>, \<open>backoff\<close> and the waits), \<open>retries\<close> and \<open>attempt\<close> as integers. What the
  function does is recorded as a list of events: the calls of the operation and the sleeps.
\<close>

datatype exn = Exception string

datatype event = Call int | Sleep real

function retry_from ::
  "(int \<Rightarrow> exn + 'a option) \<Rightarrow> (int \<Rightarrow> real) \<Rightarrow> int \<Rightarrow> real \<Rightarrow> real \<Rightarrow> int
     \<Rightarrow> (exn + 'a option) \<times> event list" where
  "retry_from coro_func jitter retries delay backoff attempt =
     (if retries < attempt then (Inr None, [])
      else (case coro_func attempt of
              Inr v \<Rightarrow> (Inr v, [Call attempt])
            | Inl e \<Rightarrow>
                if attempt = retries then (Inl e, [Call attempt])
                else (let wait = delay * backoff ^ nat (attempt - 1) + jitter attempt;
                          (r, evs) = retry_from coro_func jitter retries delay backoff (attempt + 1)
                      in (r, Call attempt # Sleep wait # evs))))"
  by pat_completeness auto
termination
  by (relation "measure (\<lambda>(f, j, retries, d, b, attempt). nat (retries + 1 - attempt))") auto

declare retry_from.simps [simp del]

text \<open>The loop starts at \<open>attempt = 1\<close>; when the range is empty the function falls off its
  end and returns \<^verbatim>\<open>None\<close>.\<close>

definition retry_async ::
  "(int \<Rightarrow> exn + 'a option) \<Rightarrow> (int \<Rightarrow> real) \<Rightarrow> int \<Rightarrow> real \<Rightarrow> real
     \<Rightarrow> (exn + 'a option) \<times> event list" where
  "retry_async coro_func jitter retries delay backoff =
     retry_from coro_func jitter retries delay backoff 1"

text \<open>Observations on a list of events: how often the operation was called, and how long
  the function slept in total.\<close>

fun is_call :: "event \<Rightarrow> bool" where
  "is_call (Call n) = True"
| "is_call (Sleep w) = False"

definition calls :: "event list \<Rightarrow> nat" where
  "calls evs = length (filter is_call evs)"





section \<open>Definitions: strings\<close>

text \<open>
  A Python \<^verbatim>\<open>str\<close> is a sequence of code points. The embedding covers the strings whose code
  points are all below 256: a \<open>string\<close> is a list of \<open>char\<close>, one \<open>char\<close> per code point.
  Where a function of the standard library can produce a character outside this alphabet, or
  depends on a part of the library that is not modelled, the model answers \<open>None\<close>; the results
  of the functions below are therefore of type \<open>(error + 'a) option\<close>: \<open>None\<close> is "outside the
  embedding", \<open>Some (Inl e)\<close> is "raises \<open>e\<close>", \<open>Some (Inr v)\<close> is "returns \<open>v\<close>".
\<close>

datatype error = ValueError

text \<open>\<^verbatim>\<open>s.partition(c)\<close>: the text before the first \<open>c\<close> and the text after it.\<close>

definition before :: "char \<Rightarrow> string \<Rightarrow> string" where
  "before c s = takeWhile (\<lambda>x. x \<noteq> c) s"

definition after :: "char \<Rightarrow> string \<Rightarrow> string" where
  "after c s = drop 1 (dropWhile (\<lambda>x. x \<noteq> c) s)"

text \<open>\<^verbatim>\<open>s.split(c)\<close>: the pieces between the occurrences of \<open>c\<close>, always at least one.\<close>

fun split :: "char \<Rightarrow> string \<Rightarrow> string list" where
  "split c [] = [[]]"
| "split c (x # xs) =
     (if x = c then [] # split c xs
      else (case split c xs of p # ps \<Rightarrow> (x # p) # ps | [] \<Rightarrow> [[x]]))"

text \<open>\<^verbatim>\<open>sep.join(pieces)\<close>.\<close>

fun join :: "string \<Rightarrow> string list \<Rightarrow> string" where
  "join sep [] = []"
| "join sep [p] = p"
| "join sep (p # q # ps) = p @ sep @ join sep (q # ps)"

definition startswith :: "string \<Rightarrow> string \<Rightarrow> bool" where
  "startswith s p = (take (length p) s = p)"

definition endswith :: "string \<Rightarrow> string \<Rightarrow> bool" where
  "endswith s p = (length p \<le> length s \<and> drop (length s - length p) s = p)"

text \<open>\<^verbatim>\<open>str.lower()\<close> on the code points below 256: the ASCII capitals, and the capitals
  of Latin-1 (U+00C0 to U+00DE without the multiplication sign U+00D7), move up by 32.\<close>

definition is_upper :: "char \<Rightarrow> bool" where
  "is_upper c = (let n = (of_char c :: nat) in
     (65 \<le> n \<and> n \<le> 90) \<or> (192 \<le> n \<and> n \<le> 222 \<and> n \<noteq> 215))"

definition lower_char :: "char \<Rightarrow> char" where
  "lower_char c = (if is_upper c then char_of ((of_char c :: nat) + 32) else c)"

definition lower :: "string \<Rightarrow> string" where
  "lower s = map lower_char s"

text \<open>\<^verbatim>\<open>c.isascii() and c.isalpha()\<close>, and membership in \<^verbatim>\<open>scheme_chars\<close>.\<close>

definition is_ascii_alpha :: "char \<Rightarrow> bool" where
  "is_ascii_alpha c = (let n = (of_char c :: nat) in
     (65 \<le> n \<and> n \<le> 90) \<or> (97 \<le> n \<and> n \<le> 122))"

definition scheme_char :: "char \<Rightarrow> bool" where
  "scheme_char c = (let n = (of_char c :: nat) in
     (97 \<le> n \<and> n \<le> 122) \<or> (65 \<le> n \<and> n \<le> 90) \<or> (48 \<le> n \<and> n \<le> 57)
     \<or> c = CHR ''+'' \<or> c = CHR ''-'' \<or> c = CHR ''.'')"

section \<open>Definitions: \<^verbatim>\<open>urllib.parse\<close> (CPython 3.12)\<close>

text \<open>
  \<^verbatim>\<open>url_utils.py\<close> calls \<^verbatim>\<open>urlparse\<close>, \<^verbatim>\<open>urlunparse\<close> and \<^verbatim>\<open>parse_qsl\<close>. They are
  modelled from the library's source, function by function.
\<close>

definition uses_netloc :: "string list" where
  "uses_netloc = ['''', ''ftp'', ''http'', ''gopher'', ''nntp'', ''telnet'',
     ''imap'', ''wais'', ''file'', ''mms'', ''https'', ''shttp'',
     ''snews'', ''prospero'', ''rtsp'', ''rtsps'', ''rtspu'', ''rsync'',
     ''svn'', ''svn+ssh'', ''sftp'', ''nfs'', ''git'', ''git+ssh'',
     ''ws'', ''wss'', ''itms-services'']"

definition uses_params :: "string list" where
  "uses_params = ['''', ''ftp'', ''hdl'', ''prospero'', ''http'', ''imap'',
     ''https'', ''shttp'', ''rtsp'', ''rtsps'', ''rtspu'', ''sip'',
     ''sips'', ''mms'', ''sftp'', ''tel'']"

text \<open>
  \<^verbatim>\<open>
  url = url.lstrip(_WHATWG_C0_CONTROL_OR_SPACE)
  for b in _UNSAFE_URL_BYTES_TO_REMOVE:
      url = url.replace(b, "")
  \<close>
  The characters stripped on the left are the code points 0 to 32; the bytes removed are
  tab, carriage return and line feed.
\<close>

definition lstrip_c0 :: "string \<Rightarrow> string" where
  "lstrip_c0 url = dropWhile (\<lambda>c. (of_char c :: nat) \<le> 32) url"

definition unsafe_byte :: "char \<Rightarrow> bool" where
  "unsafe_byte c = (c = CHR 0x09 \<or> c = CHR 0x0D \<or> c = CHR 0x0A)"

definition remove_unsafe :: "string \<Rightarrow> string" where
  "remove_unsafe url = filter (\<lambda>c. \<not> unsafe_byte c) url"

text \<open>
  \<^verbatim>\<open>
  i = url.find(':')
  if i > 0 and url[0].isascii() and url[0].isalpha():
      for c in url[:i]:
          if c not in scheme_chars:
              break
      else:
          scheme, url = url[:i].lower(), url[i+1:]
  \<close>
  The result is the scheme (empty when there is none) and the rest of the URL.
\<close>

definition split_scheme :: "string \<Rightarrow> string \<times> string" where
  "split_scheme url =
     (let pre = before CHR '':'' url in
      if CHR '':'' \<in> set url \<and> pre \<noteq> [] \<and> is_ascii_alpha (hd pre) \<and> list_all scheme_char pre
      then (lower pre, after CHR '':'' url)
      else ('''', url))"

text \<open>
  \<^verbatim>\<open>
  def _splitnetloc(url, start=0):
      delim = len(url)
      for c in '/?#':
          wdelim = url.find(c, start)
          if wdelim >= 0:
              delim = min(delim, wdelim)
      return url[start:delim], url[delim:]
  \<close>
  called with \<open>start = 2\<close> on a URL that begins with two slashes.
\<close>

definition netloc_delim :: "char \<Rightarrow> bool" where
  "netloc_delim c = (c = CHR ''/'' \<or> c = CHR ''?'' \<or> c = CHR ''#'')"

definition splitnetloc :: "string \<Rightarrow> string \<times> string" where
  "splitnetloc url =
     (takeWhile (\<lambda>c. \<not> netloc_delim c) (drop 2 url),
      dropWhile (\<lambda>c. \<not> netloc_delim c) (drop 2 url))"

text \<open>
  The checks on square brackets in the network location:
  \<^verbatim>\<open>
  if (('[' in netloc and ']' not in netloc) or
          (']' in netloc and '[' not in netloc)):
      raise ValueError("Invalid IPv6 URL")
  if '[' in netloc and ']' in netloc:
      _check_bracketed_netloc(netloc)

  def _check_bracketed_netloc(netloc):
      hostname_and_port = netloc.rpartition('@')[2]
      before_bracket, have_open_br, bracketed = hostname_and_port.partition('[')
      if have_open_br:
          if before_bracket:
              raise ValueError("Invalid IPv6 URL")
          hostname, _, port = bracketed.partition(']')
          if port and not port.startswith(":"):
              raise ValueError("Invalid IPv6 URL")
      else:
          hostname, _, port = hostname_and_port.partition(':')
      _check_bracketed_host(hostname)
  \<close>
  \<^verbatim>\<open>_check_bracketed_host\<close> parses the host with the \<^verbatim>\<open>ipaddress\<close> module, which is not
  modelled: where the library reaches that call, the model answers \<open>None\<close>. \<open>Some None\<close>
  stands for "the checks pass", \<open>Some (Some e)\<close> for "raises \<open>e\<close>".
\<close>

definition after_last :: "char \<Rightarrow> string \<Rightarrow> string" where
  "after_last c s = rev (takeWhile (\<lambda>x. x \<noteq> c) (rev s))"

definition check_bracketed_netloc :: "string \<Rightarrow> error option option" where
  "check_bracketed_netloc loc =
     (let hostname_and_port = after_last CHR ''@'' loc in
      if CHR ''['' \<in> set hostname_and_port then
        if before CHR ''['' hostname_and_port \<noteq> [] then Some (Some ValueError)
        else (let port = after CHR '']'' (after CHR ''['' hostname_and_port) in
              if port \<noteq> [] \<and> \<not> startswith port '':'' then Some (Some ValueError)
              else None)
      else None)"

definition check_brackets :: "string \<Rightarrow> error option option" where
  "check_brackets loc =
     (if (CHR ''['' \<in> set loc \<and> CHR '']'' \<notin> set loc)
         \<or> (CHR '']'' \<in> set loc \<and> CHR ''['' \<notin> set loc)
      then Some (Some ValueError)
      else if CHR ''['' \<in> set loc \<and> CHR '']'' \<in> set loc
      then check_bracketed_netloc loc
      else Some None)"

text \<open>
  \<^verbatim>\<open>urlsplit(url)\<close>, with the default arguments \<^verbatim>\<open>scheme=''\<close> and
  \<^verbatim>\<open>allow_fragments=True\<close>:
  \<^verbatim>\<open>
  netloc = query = fragment = ''
  ... (the scheme, see split_scheme)
  if url[:2] == '//':
      netloc, url = _splitnetloc(url, 2)
      ... (the bracket checks)
  if allow_fragments and '#' in url:
      url, fragment = url.split('#', 1)
  if '?' in url:
      url, query = url.split('?', 1)
  _checknetloc(netloc)
  v = SplitResult(scheme, netloc, url, query, fragment)
  \<close>
  \<^verbatim>\<open>_checknetloc\<close> returns at once for an ASCII network location; otherwise it raises when
  the NFKC normal form of the network location contains one of \<^verbatim>\<open>/?#@:\<close> that the network
  location does not. No code point from 128 to 255 has such a normal form, so on the
  strings of this embedding \<^verbatim>\<open>_checknetloc\<close> never raises and is left out.
\<close>

record parse_result =
  scheme :: string
  netloc :: string
  path :: string
  params :: string
  query :: string
  fragment :: string

definition urlsplit :: "string \<Rightarrow> (error + parse_result) option" where
  "urlsplit url0 =
     (let url1 = remove_unsafe (lstrip_c0 url0);
          (sch, url2) = split_scheme url1;
          (loc, url3) = (if take 2 url2 = ''//'' then splitnetloc url2 else ('''', url2));
          (url4, frag) = (if CHR ''#'' \<in> set url3
                              then (before CHR ''#'' url3, after CHR ''#'' url3) else (url3, ''''));
          (url5, qry) = (if CHR ''?'' \<in> set url4
                           then (before CHR ''?'' url4, after CHR ''?'' url4) else (url4, ''''))
      in (case (if take 2 url2 = ''//'' then check_brackets loc else Some None) of
            None \<Rightarrow> None
          | Some (Some e) \<Rightarrow> Some (Inl e)
          | Some None \<Rightarrow>
              Some (Inr \<lparr>scheme = sch, netloc = loc, path = url5, params = '''',
                         query = qry, fragment = frag\<rparr>)))"

text \<open>
  \<^verbatim>\<open>
  def _splitparams(url):
      if '/'  in url:
          i = url.find(';', url.rfind('/'))
          if i < 0:
              return url, ''
      else:
          i = url.find(';')
      return url[:i], url[i+1:]
  \<close>
  It is called only when the path contains a semicolon. The last segment of the path is what
  follows its last slash.
\<close>

definition upto_last :: "char \<Rightarrow> string \<Rightarrow> string" where
  "upto_last c s = take (length s - length (after_last c s)) s"

definition splitparams :: "string \<Rightarrow> string \<times> string" where
  "splitparams url =
     (if CHR ''/'' \<in> set url then
        (let seg = after_last CHR ''/'' url in
         if CHR '';'' \<notin> set seg then (url, '''')
         else (upto_last CHR ''/'' url @ before CHR '';'' seg, after CHR '';'' seg))
      else (before CHR '';'' url, after CHR '';'' url))"

text \<open>
  \<^verbatim>\<open>
  def urlparse(url, scheme='', allow_fragments=True):
      splitresult = urlsplit(url, scheme, allow_fragments)
      scheme, netloc, url, query, fragment = splitresult
      if scheme in uses_params and ';' in url:
          url, params = _splitparams(url)
      else:
          params = ''
      result = ParseResult(scheme, netloc, url, params, query, fragment)
  \<close>
\<close>

definition urlparse :: "string \<Rightarrow> (error + parse_result) option" where
  "urlparse url =
     (case urlsplit url of
        None \<Rightarrow> None
      | Some (Inl e) \<Rightarrow> Some (Inl e)
      | Some (Inr r) \<Rightarrow>
          if scheme r \<in> set uses_params \<and> CHR '';'' \<in> set (path r)
          then Some (Inr (r\<lparr>path := fst (splitparams (path r)),
                             params := snd (splitparams (path r))\<rparr>))
          else Some (Inr r))"

text \<open>
  \<^verbatim>\<open>
  def urlunparse(components):
      scheme, netloc, url, params, query, fragment, _coerce_result = (...)
      if params:
          url = "%s;%s" % (url, params)
      return _coerce_result(urlunsplit((scheme, netloc, url, query, fragment)))

  def urlunsplit(components):
      scheme, netloc, url, query, fragment, _coerce_result = (...)
      if netloc or (scheme and scheme in uses_netloc and url[:2] != '//'):
          if url and url[:1] != '/': url = '/' + url
          url = '//' + (netloc or '') + url
      if scheme:
          url = scheme + ':' + url
      if query:
          url = url + '?' + query
      if fragment:
          url = url + '#' + fragment
      return _coerce_result(url)
  \<close>
\<close>

definition urlunsplit :: "string \<Rightarrow> string \<Rightarrow> string \<Rightarrow> string \<Rightarrow> string \<Rightarrow> string" where
  "urlunsplit sch loc url qry frag =
     (let url1 = (if loc \<noteq> [] \<or> (sch \<noteq> [] \<and> sch \<in> set uses_netloc \<and> take 2 url \<noteq> ''//'')
                  then ''//'' @ loc @ (if url \<noteq> [] \<and> take 1 url \<noteq> ''/'' then ''/'' @ url else url)
                  else url);
          url2 = (if sch \<noteq> [] then sch @ '':'' @ url1 else url1);
          url3 = (if qry \<noteq> [] then url2 @ ''?'' @ qry else url2)
      in if frag \<noteq> [] then url3 @ ''#'' @ frag else url3)"

definition urlunparse :: "parse_result \<Rightarrow> string" where
  "urlunparse c =
     urlunsplit (scheme c) (netloc c)
       (if params c \<noteq> [] then path c @ '';'' @ params c else path c) (query c) (fragment c)"

text \<open>
  \<^verbatim>\<open>unquote\<close> replaces each \<^verbatim>\<open>%xx\<close> escape by the byte it denotes and decodes the bytes as
  UTF-8, replacing what does not decode:
  \<^verbatim>\<open>
  def _unquote_impl(string):
      ...
      bits = string.split(b'%')
      if len(bits) == 1:
          return string
      res = bytearray(bits[0])
      ...
      for item in bits[1:]:
          try:
              append(_hextobyte[item[:2]])
              append(item[2:])
          except KeyError:
              append(b'%')
              append(item)
      return res

  def unquote(string, encoding='utf-8', errors='replace'):
      ...
      if '%' not in string:
          return string
      ...
      return ''.join(_generate_unquoted_parts(string, encoding, errors))
  \<close>
  \<^verbatim>\<open>_generate_unquoted_parts\<close> applies \<^verbatim>\<open>_unquote_impl\<close> to each maximal run of ASCII
  characters and leaves the other characters as they are; since no character outside ASCII is
  a hexadecimal digit, this is \<^verbatim>\<open>_unquote_impl\<close> on the whole string. An escape below
  \<^verbatim>\<open>%80\<close> denotes an ASCII character. An escape from \<^verbatim>\<open>%80\<close> on is a part of a UTF-8
  sequence, whose decoding (or replacement by U+FFFD) is not modelled: the model answers
  \<open>None\<close> there.
\<close>

definition hexval :: "char \<Rightarrow> nat option" where
  "hexval c = (let n = (of_char c :: nat) in
     if 48 \<le> n \<and> n \<le> 57 then Some (n - 48)
     else if 65 \<le> n \<and> n \<le> 70 then Some (n - 55)
     else if 97 \<le> n \<and> n \<le> 102 then Some (n - 87)
     else None)"

fun hextobyte :: "string \<Rightarrow> nat option" where
  "hextobyte [a, b] =
     (case (hexval a, hexval b) of (Some x, Some y) \<Rightarrow> Some (16 * x + y) | _ \<Rightarrow> None)"
| "hextobyte s = None"

fun unquote_items :: "string list \<Rightarrow> string option" where
  "unquote_items [] = Some []"
| "unquote_items (item # items) =
     (case hextobyte (take 2 item) of
        Some b \<Rightarrow>
          if b < 128 then map_option (\<lambda>r. char_of b # drop 2 item @ r) (unquote_items items)
          else None
      | None \<Rightarrow> map_option (\<lambda>r. CHR ''%'' # item @ r) (unquote_items items))"

definition unquote :: "string \<Rightarrow> string option" where
  "unquote s =
     (if CHR ''%'' \<notin> set s then Some s
      else (case split CHR ''%'' s of
              [] \<Rightarrow> Some []
            | bits0 # items \<Rightarrow> map_option (\<lambda>r. bits0 @ r) (unquote_items items)))"

text \<open>
  \<^verbatim>\<open>
  def unquote_plus(string, encoding='utf-8', errors='replace'):
      string = string.replace('+', ' ')
      return unquote(string, encoding, errors)
  \<close>
\<close>

definition unquote_plus :: "string \<Rightarrow> string option" where
  "unquote_plus s = unquote (map (\<lambda>c. if c = CHR ''+'' then CHR '' '' else c) s)"

text \<open>
  \<^verbatim>\<open>parse_qsl(qs, keep_blank_values=True)\<close>, the other arguments at their defaults
  (\<^verbatim>\<open>strict_parsing=False\<close>, \<^verbatim>\<open>separator='&'\<close>):
  \<^verbatim>\<open>
  if not qs:
      return []
  r = []
  for name_value in qs.split(separator):
      if name_value or strict_parsing:
          name, has_eq, value = name_value.partition(eq)
          if value or keep_blank_values:
              name = _unquote(name)
              value = _unquote(value)
              r.append((name, value))
  return r
  \<close>
\<close>

fun parse_fields :: "string list \<Rightarrow> (string \<times> string) list option" where
  "parse_fields [] = Some []"
| "parse_fields (name_value # rest) =
     (if name_value \<noteq> [] then
        (case (unquote_plus (before CHR ''='' name_value),
               unquote_plus (after CHR ''='' name_value),
               parse_fields rest) of
           (Some name, Some val, Some r) \<Rightarrow> Some ((name, val) # r)
         | _ \<Rightarrow> None)
      else parse_fields rest)"

definition parse_qsl :: "string \<Rightarrow> (string \<times> string) list option" where
  "parse_qsl qs = (if qs = [] then Some [] else parse_fields (split CHR ''&'' qs))"

section \<open>Definitions: \<^verbatim>\<open>web_scraper/crawler/url_utils.py\<close>\<close>

definition TRACKING_PARAMS_PREFIXES :: "string list" where
  "TRACKING_PARAMS_PREFIXES = [''utm_'']"

definition TRACKING_PARAMS_EXACT :: "string list" where
  "TRACKING_PARAMS_EXACT = [''gclid'', ''fbclid'', ''ref'', ''referrer'', ''_hsenc'', ''_hsmi'']"

text \<open>The test the loop of \<^verbatim>\<open>_strip_tracking_params\<close> makes on each key:
  \<^verbatim>\<open>
  if k in TRACKING_PARAMS_EXACT:
      continue
  if any(k.startswith(p) for p in TRACKING_PARAMS_PREFIXES):
      continue
  \<close>
\<close>

definition is_tracking :: "string \<Rightarrow> bool" where
  "is_tracking k =
     (k \<in> set TRACKING_PARAMS_EXACT \<or> list_ex (\<lambda>p. startswith k p) TRACKING_PARAMS_PREFIXES)"

text \<open>
  \<^verbatim>\<open>
  def _strip_tracking_params(query: str) -> str:
      if not query:
          return ""
      filtered = []
      for k, v in parse_qsl(query, keep_blank_values=True):
          ... (the test above)
          filtered.append((k, v))
      if not filtered:
          return ""
      return "&".join(f"{k}={v}" for k, v in filtered)
  \<close>
\<close>

definition strip_tracking_params :: "string \<Rightarrow> string option" where
  "strip_tracking_params qry =
     (if qry = [] then Some ''''
      else (case parse_qsl qry of
              None \<Rightarrow> None
            | Some kvs \<Rightarrow>
                (let filtered = filter (\<lambda>(k, v). \<not> is_tracking k) kvs in
                 if filtered = [] then Some ''''
                 else Some (join ''&'' (map (\<lambda>(k, v). k @ ''='' @ v) filtered)))))"

text \<open>
  The loop of \<^verbatim>\<open>normalize_url\<close> on the path:
  \<^verbatim>\<open>
  while "//" in path:
      path = path.replace("//", "/")
  \<close>
  \<open>has_dslash\<close> is the test \<^verbatim>\<open>"//" in path\<close>; \<open>replace_dslash\<close> is one call of
  \<^verbatim>\<open>path.replace("//", "/")\<close>, which replaces the occurrences from left to right without
  overlap.
\<close>

fun has_dslash :: "string \<Rightarrow> bool" where
  "has_dslash (a # b # rest) = ((a = CHR ''/'' \<and> b = CHR ''/'') \<or> has_dslash (b # rest))"
| "has_dslash s = False"

fun replace_dslash :: "string \<Rightarrow> string" where
  "replace_dslash (a # b # rest) =
     (if a = CHR ''/'' \<and> b = CHR ''/'' then CHR ''/'' # replace_dslash rest
      else a # replace_dslash (b # rest))"
| "replace_dslash s = s"

function collapse_slashes :: "string \<Rightarrow> string" where
  "collapse_slashes p =
     (if has_dslash p then collapse_slashes (replace_dslash p) else p)"
  by pat_completeness auto
termination
proof (relation "measure length")
  show "wf (measure length)" by simp
next
  fix p :: string
  assume "has_dslash p"
  then have "length (replace_dslash p) < length p"
  proof (induction p rule: replace_dslash.induct)
    case (1 a b rest)
    have le: "length (replace_dslash xs) \<le> length xs" for xs
      by (induction xs rule: replace_dslash.induct) auto
    show ?case
    proof (cases "a = CHR ''/'' \<and> b = CHR ''/''")
      case True
      then show ?thesis using le [of rest] by simp
    next
      case False
      with 1 show ?thesis by auto
    qed
  qed simp_all
  then show "(replace_dslash p, p) \<in> measure length" by simp
qed

declare collapse_slashes.simps [simp del]

text \<open>
  \<^verbatim>\<open>
  def normalize_url(url: str) -> str:
      parsed = urlparse(url)
      scheme = (parsed.scheme or "http").lower()
      netloc = (parsed.netloc or "").lower()
      path = parsed.path or "/"
      while "//" in path:
          path = path.replace("//", "/")
      query = _strip_tracking_params(parsed.query)
      fragment = ""
      if len(path) > 1 and path.endswith("/"):
          path = path[:-1]
      normalized = urlunparse((scheme, netloc, path, "", query, fragment))
      return normalized
  \<close>
\<close>

definition strip_trailing_slash :: "string \<Rightarrow> string" where
  "strip_trailing_slash p =
     (if length p > 1 \<and> endswith p ''/'' then butlast p else p)"

definition normalize_url :: "string \<Rightarrow> (error + string) option" where
  "normalize_url url =
     (case urlparse url of
        None \<Rightarrow> None
      | Some (Inl e) \<Rightarrow> Some (Inl e)
      | Some (Inr parsed) \<Rightarrow>
          (let scheme' = lower (if scheme parsed \<noteq> [] then scheme parsed else ''http'');
               netloc' = lower (netloc parsed);
               path1 = collapse_slashes (if path parsed \<noteq> [] then path parsed else ''/'')
           in (case strip_tracking_params (query parsed) of
                 None \<Rightarrow> None
               | Some query' \<Rightarrow>
                   Some (Inr (urlunparse
                     \<lparr>scheme = scheme', netloc = netloc', path = strip_trailing_slash path1,
                      params = '''', query = query', fragment = ''''\<rparr>)))))"

text \<open>
  \<^verbatim>\<open>
  def is_internal_url(url: str, base_url: str) -> bool:
      parsed_base = urlparse(base_url)
      parsed_url = urlparse(url)
      base_host = (parsed_base.netloc or "").lower()
      url_host = (parsed_url.netloc or "").lower()
      def strip_www(h: str) -> str:
          return h[4:] if h.startswith("www.") else h
      return strip_www(url_host) == strip_www(base_host) and parsed_url.scheme in ["http", "https"]
  \<close>
\<close>

definition strip_www :: "string \<Rightarrow> string" where
  "strip_www h = (if startswith h ''www.'' then drop 4 h else h)"

definition is_internal_url :: "string \<Rightarrow> string \<Rightarrow> (error + bool) option" where
  "is_internal_url url base_url =
     (case urlparse base_url of
        None \<Rightarrow> None
      | Some (Inl e) \<Rightarrow> Some (Inl e)
      | Some (Inr parsed_base) \<Rightarrow>
          (case urlparse url of
             None \<Rightarrow> None
           | Some (Inl e) \<Rightarrow> Some (Inl e)
           | Some (Inr parsed_url) \<Rightarrow>
               (let base_host = lower (netloc parsed_base);
                    url_host = lower (netloc parsed_url)
                in Some (Inr (strip_www url_host = strip_www base_host
                              \<and> scheme parsed_url \<in> set [''http'', ''https''])))))"

text \<open>
  \<^verbatim>\<open>
  def is_probably_html_url(url: str) -> bool:
      parsed = urlparse(url)
      path = parsed.path.lower()
      if "/wp-content/uploads/" in path:
          return False
      for ext in DISALLOWED_EXTENSIONS:
          if path.endswith(ext):
              return False
      return True
  \<close>
  \<open>contains s t\<close> is the test \<^verbatim>\<open>t in s\<close> on strings.
\<close>

definition DISALLOWED_EXTENSIONS :: "string list" where
  "DISALLOWED_EXTENSIONS =
     [''.png'', ''.jpg'', ''.jpeg'', ''.gif'', ''.webp'', ''.svg'', ''.ico'',
      ''.mp4'', ''.webm'', ''.mp3'', ''.wav'', ''.ogg'',
      ''.pdf'', ''.zip'', ''.rar'', ''.7z'', ''.gz'', ''.tar'',
      ''.doc'', ''.docx'', ''.xls'', ''.xlsx'', ''.ppt'', ''.pptx'',
      ''.exe'', ''.dmg'', ''.apk'',
      ''.css'', ''.js'', ''.mjs'', ''.map'']"

fun contains :: "string \<Rightarrow> string \<Rightarrow> bool" where
  "contains [] t = (t = [])"
| "contains (x # xs) t = (startswith (x # xs) t \<or> contains xs t)"

definition is_probably_html_url :: "string \<Rightarrow> (error + bool) option" where
  "is_probably_html_url url =
     (case urlparse url of
        None \<Rightarrow> None
      | Some (Inl e) \<Rightarrow> Some (Inl e)
      | Some (Inr parsed) \<Rightarrow>
          (let p = lower (path parsed) in
           if contains p ''/wp-content/uploads/'' then Some (Inr False)
           else if list_ex (\<lambda>ext. endswith p ext) DISALLOWED_EXTENSIONS then Some (Inr False)
           else Some (Inr True)))"

section \<open>Definitions: notions used to state and prove the properties of the URL functions\<close>






definition field_of :: "string \<times> string \<Rightarrow> string" where
  "field_of = (\<lambda>(k, v). k @ ''='' @ v)"

section \<open>Definitions: \<^verbatim>\<open>web_scraper/crawler/queue_manager.py\<close>\<close>

text \<open>
  \<^verbatim>\<open>URLQueue\<close> and \<^verbatim>\<open>DiscoveryQueue\<close> each hold an \<^verbatim>\<open>asyncio.Queue\<close> without a size bound,
  a set of visited URLs and a lock. Of the \<^verbatim>\<open>asyncio.Queue\<close> the model keeps the items that
  wait (\<open>pending\<close>) and the counter of unfinished tasks, which \<^verbatim>\<open>put\<close> increments and
  \<^verbatim>\<open>task_done\<close> decrements. The items of a \<^verbatim>\<open>DiscoveryQueue\<close> are pairs of a URL and a depth;
  the items of a \<^verbatim>\<open>URLQueue\<close> are URLs or \<^verbatim>\<open>None\<close>, the sentinel. The lock matters only when
  several tasks add to one queue; that is the subject of the step relation further down.
\<close>

record 'a aqueue =
  pending :: "'a list"
  unfinished :: nat
  visited :: "string set"

type_synonym discovery_queue = "(string \<times> int) aqueue"

type_synonym url_queue = "string option aqueue"

definition new_queue :: "'a aqueue" where
  "new_queue = \<lparr>pending = [], unfinished = 0, visited = {}\<rparr>"

text \<open>\<^verbatim>\<open>asyncio.Queue.put_nowait\<close>, and \<^verbatim>\<open>put\<close> on a queue that is never full.\<close>

definition put_nowait :: "'a \<Rightarrow> 'a aqueue \<Rightarrow> 'a aqueue" where
  "put_nowait item q = q\<lparr>pending := pending q @ [item], unfinished := unfinished q + 1\<rparr>"

text \<open>
  \<^verbatim>\<open>
  def task_done(self):
      if self._unfinished_tasks <= 0:
          raise ValueError('task_done() called too many times')
      self._unfinished_tasks -= 1
      ...
  \<close>
\<close>

definition task_done :: "'a aqueue \<Rightarrow> error + 'a aqueue" where
  "task_done q =
     (if unfinished q = 0 then Inl ValueError else Inr (q\<lparr>unfinished := unfinished q - 1\<rparr>))"

text \<open>\<^verbatim>\<open>has_pending\<close> is \<^verbatim>\<open>not self.queue.empty()\<close>.\<close>

definition has_pending :: "'a aqueue \<Rightarrow> bool" where
  "has_pending q = (pending q \<noteq> [])"

text \<open>\<^verbatim>\<open>get_url\<close> awaits \<^verbatim>\<open>self.queue.get()\<close>: it takes the first waiting item, and waits
  while there is none (\<open>None\<close>).\<close>

definition get_url :: "'a aqueue \<Rightarrow> ('a \<times> 'a aqueue) option" where
  "get_url q = (case pending q of [] \<Rightarrow> None | item # rest \<Rightarrow> Some (item, q\<lparr>pending := rest\<rparr>))"

text \<open>
  \<^verbatim>\<open>
  def add_url(self, url: str, depth: int):
      norm = normalize_url(url)
      if norm not in self.visited:
          self.queue.put_nowait((norm, depth))
          self.visited.add(norm)
  \<close>
  and the same with \<^verbatim>\<open>async with self.lock\<close> around the test and \<^verbatim>\<open>await self.queue.put\<close> for
  \<^verbatim>\<open>add_url_async\<close>. The functions below are the effect of one call that runs alone on
  its queue; they also return the items the call has put. The normaliser is an argument:
  \<open>Inl e\<close> when it raises.
\<close>

definition add_item :: "string \<Rightarrow> 'a \<Rightarrow> 'a aqueue \<Rightarrow> 'a aqueue \<times> 'a list" where
  "add_item nurl item q =
     (if nurl \<notin> visited q
      then ((put_nowait item q)\<lparr>visited := insert nurl (visited q)\<rparr>, [item])
      else (q, []))"

definition DiscoveryQueue_add_url ::
  "(string \<Rightarrow> error + string) \<Rightarrow> string \<Rightarrow> int \<Rightarrow> discovery_queue
     \<Rightarrow> error + discovery_queue \<times> (string \<times> int) list" where
  "DiscoveryQueue_add_url nrm url depth q =
     (case nrm url of
        Inl e \<Rightarrow> Inl e
      | Inr nurl \<Rightarrow> Inr (add_item nurl (nurl, depth) q))"

definition URLQueue_add_url ::
  "(string \<Rightarrow> error + string) \<Rightarrow> string \<Rightarrow> url_queue
     \<Rightarrow> error + url_queue \<times> string option list" where
  "URLQueue_add_url nrm url q =
     (case nrm url of
        Inl e \<Rightarrow> Inl e
      | Inr nurl \<Rightarrow> Inr (add_item nurl (Some nurl) q))"

text \<open>\<^verbatim>\<open>add_sentinel\<close> and \<^verbatim>\<open>add_sentinel_async\<close> put \<^verbatim>\<open>None\<close> and leave the visited set
  alone.\<close>

definition add_sentinel :: "url_queue \<Rightarrow> url_queue" where
  "add_sentinel q = put_nowait None q"

section \<open>Definitions: \<^verbatim>\<open>web_scraper/crawler/crawler.py\<close>\<close>

text \<open>
  The crawler uses \<^verbatim>\<open>url_utils\<close> through three functions. Nothing in the traversal depends
  on what they compute, so they are arguments of the model (\<open>Inl e\<close> when the function
  raises), and every theorem about the crawler holds whatever \<^verbatim>\<open>url_utils\<close> does, also on
  the URLs the embedding of \<^verbatim>\<open>urllib.parse\<close> above does not cover.
\<close>

record url_ops =
  normalize_url_of :: "string \<Rightarrow> error + string"
  is_internal_url_of :: "string \<Rightarrow> string \<Rightarrow> error + bool"
  is_probably_html_url_of :: "string \<Rightarrow> error + bool"

text \<open>The three functions as modelled above, for the URLs the embedding covers.\<close>

definition url_utils :: url_ops where
  "url_utils = \<lparr>normalize_url_of = (\<lambda>url. the (normalize_url url)),
                 is_internal_url_of = (\<lambda>url base_url. the (is_internal_url url base_url)),
                 is_probably_html_url_of = (\<lambda>url. the (is_probably_html_url url))\<rparr>"

definition MAX_DEPTH :: int where
  "MAX_DEPTH = 3"

text \<open>
  The browser is the environment. For one dequeued item it answers in one of three ways:
  \<^verbatim>\<open>page.goto\<close> raises; \<^verbatim>\<open>page.goto\<close> returns and \<^verbatim>\<open>page.eval_on_selector_all\<close> raises;
  both return, the second with the list of the \<^verbatim>\<open>href\<close>s of the page. The exceptions are
  instances of \<^verbatim>\<open>Exception\<close>, which is what the \<^verbatim>\<open>except\<close> clause catches.
\<close>

datatype nav_result = GotoRaises exn | EvalRaises exn | Links "string list"

text \<open>What the crawler does is recorded as a list of events, in the order of the source.\<close>

datatype cevent =
    HasPending bool
  | Get string int
  | Goto string
  | LogInfo string
  | ScrapePut "string option"
  | EvalLinks string
  | DiscPut string int
  | LogError string
  | TaskDone

record crawler =
  discovery_queue :: discovery_queue
  scrape_queue :: url_queue
  base_url :: string

text \<open>
  \<^verbatim>\<open>
  if depth < MAX_DEPTH:
      for link in links:
          link = normalize_url(link)
          if is_internal_url(link, self.base_url) and is_probably_html_url(link):
              await self.discovery_queue.add_url_async(link, depth + 1)
  \<close>
  The result says whether an exception was raised (the loop stops there, what was enqueued
  before stays enqueued), and gives the queue and the events.
\<close>

fun enqueue_links ::
  "url_ops \<Rightarrow> string \<Rightarrow> int \<Rightarrow> string list \<Rightarrow> discovery_queue
     \<Rightarrow> bool \<times> discovery_queue \<times> cevent list" where
  "enqueue_links ops base depth [] q = (False, q, [])"
| "enqueue_links ops base depth (link # links) q =
     (case normalize_url_of ops link of
        Inl e \<Rightarrow> (True, q, [])
      | Inr link' \<Rightarrow>
          (case is_internal_url_of ops link' base of
             Inl e \<Rightarrow> (True, q, [])
           | Inr False \<Rightarrow> enqueue_links ops base depth links q
           | Inr True \<Rightarrow>
               (case is_probably_html_url_of ops link' of
                  Inl e \<Rightarrow> (True, q, [])
                | Inr False \<Rightarrow> enqueue_links ops base depth links q
                | Inr True \<Rightarrow>
                    (case DiscoveryQueue_add_url (normalize_url_of ops) link' (depth + 1) q of
                       Inl e \<Rightarrow> (True, q, [])
                     | Inr (q', puts) \<Rightarrow>
                         (let (raised, q'', evs) = enqueue_links ops base depth links q'
                          in (raised, q'', map (\<lambda>(u, d). DiscPut u d) puts @ evs))))))"

text \<open>
  The body of the \<^verbatim>\<open>try\<close> statement with its \<^verbatim>\<open>except\<close> clause, for the item
  \<^verbatim>\<open>(url, depth)\<close>:
  \<^verbatim>\<open>
  try:
      await page.goto(url, timeout=NAV_TIMEOUT_MS, wait_until=WAIT_UNTIL)
      logger.info(f"Crawling (depth {depth}): {url}")
      await self.scrape_queue.add_url_async(url)
      links = await page.eval_on_selector_all("a[href]", ...)
      if depth < MAX_DEPTH:
          ... (the loop above)
  except Exception as e:
      logger.error(f"Error crawling {url}: {e}")
  \<close>
\<close>

fun try_body ::
  "url_ops \<Rightarrow> int \<Rightarrow> nav_result \<Rightarrow> string \<Rightarrow> int \<Rightarrow> crawler \<Rightarrow> crawler \<times> cevent list" where
  "try_body ops max_depth (GotoRaises e) url depth c = (c, [Goto url, LogError url])"
| "try_body ops max_depth nav url depth c =
     (case URLQueue_add_url (normalize_url_of ops) url (scrape_queue c) of
        Inl e \<Rightarrow> (c, [Goto url, LogInfo url, LogError url])
      | Inr (sq, puts) \<Rightarrow>
          (let c1 = c\<lparr>scrape_queue := sq\<rparr>;
               evs1 = [Goto url, LogInfo url] @ map ScrapePut puts @ [EvalLinks url]
           in (case nav of
                 Links links \<Rightarrow>
                   if depth < max_depth then
                     (let (raised, dq, evs2) =
                            enqueue_links ops (base_url c1) depth links (discovery_queue c1)
                      in (c1\<lparr>discovery_queue := dq\<rparr>,
                          evs1 @ evs2 @ (if raised then [LogError url] else [])))
                   else (c1, evs1)
               | _ \<Rightarrow> (c1, evs1 @ [LogError url]))))"

text \<open>
  One iteration of the loop after \<^verbatim>\<open>get_url\<close>: the \<^verbatim>\<open>try\<close> statement, and
  \<^verbatim>\<open>
  finally:
      self.discovery_queue.task_done()
  \<close>
  An exception of \<^verbatim>\<open>task_done\<close> is not caught: it leaves the loop (\<open>Inl e\<close>).
\<close>

definition crawl_item ::
  "url_ops \<Rightarrow> int \<Rightarrow> nav_result \<Rightarrow> string \<Rightarrow> int \<Rightarrow> crawler
     \<Rightarrow> (error + crawler) \<times> cevent list" where
  "crawl_item ops max_depth nav url depth c =
     (let (c1, evs) = try_body ops max_depth nav url depth c
      in (case task_done (discovery_queue c1) of
            Inl e \<Rightarrow> (Inl e, evs @ [TaskDone])
          | Inr dq \<Rightarrow> (Inr (c1\<lparr>discovery_queue := dq\<rparr>), evs @ [TaskDone])))"

text \<open>
  \<^verbatim>\<open>
  while self.discovery_queue.has_pending():
      url, depth = await self.discovery_queue.get_url()
      ... (one iteration)
  \<close>
  The loop is driven by the answers of the browser, one per iteration, in a list. It ends
  in one of three ways: the test fails and the loop is left (\<open>Exited\<close>); an exception leaves
  the loop (\<open>Escaped\<close>); or the list of answers is used up while the loop still runs
  (\<open>Running\<close>), so that what is proved of every list of answers holds at every moment of
  every run, of those that never end too. The crawler is the only task that takes from the
  discovery queue, so \<^verbatim>\<open>get_url\<close> after a successful test never waits.
\<close>

datatype 'a loop_result = Exited 'a | Running 'a | Escaped error 'a

fun start_crawling ::
  "url_ops \<Rightarrow> int \<Rightarrow> nav_result list \<Rightarrow> crawler \<Rightarrow> crawler loop_result \<times> cevent list" where
  "start_crawling ops max_depth navs c =
     (if \<not> has_pending (discovery_queue c) then (Exited c, [HasPending False])
      else (case navs of
              [] \<Rightarrow> (Running c, [HasPending True])
            | nav # navs' \<Rightarrow>
                (case get_url (discovery_queue c) of
                   None \<Rightarrow> (Running c, [HasPending True])
                 | Some ((url, depth), dq) \<Rightarrow>
                     (case crawl_item ops max_depth nav url depth (c\<lparr>discovery_queue := dq\<rparr>) of
                        (Inl e, evs) \<Rightarrow>
                          (Escaped e (c\<lparr>discovery_queue := dq\<rparr>),
                           HasPending True # Get url depth # evs)
                      | (Inr c', evs) \<Rightarrow>
                          (let (r, evs') = start_crawling ops max_depth navs' c'
                           in (r, HasPending True # Get url depth # evs @ evs'))))))"

declare start_crawling.simps [simp del]

text \<open>
  The start of a run in \<^verbatim>\<open>scraper_runner.main\<close>:
  \<^verbatim>\<open>
  discovery_queue = DiscoveryQueue()
  scrape_queue = URLQueue()
  discovery_queue.add_url(seed, depth=0)
  crawler = Crawler(discovery_queue, scrape_queue, seed)
  \<close>
\<close>

definition seeded_crawler :: "url_ops \<Rightarrow> string \<Rightarrow> error + crawler" where
  "seeded_crawler ops seed =
     (case DiscoveryQueue_add_url (normalize_url_of ops) seed 0 new_queue of
        Inl e \<Rightarrow> Inl e
      | Inr (dq, puts) \<Rightarrow>
          Inr \<lparr>discovery_queue = dq, scrape_queue = new_queue, base_url = seed\<rparr>)"

text \<open>
  Three observations on a list of events. \<open>depth_rule max_depth cur evs\<close>: every item taken
  from the queue has a depth from 0 to \<open>max_depth\<close>, and every item put on the discovery queue
  is put while an item of a depth \<open>d < max_depth\<close> is being processed and has depth \<open>d + 1\<close>
  (\<open>cur\<close> is the depth of the item being processed, if any).
\<close>

fun depth_rule :: "int \<Rightarrow> int option \<Rightarrow> cevent list \<Rightarrow> bool" where
  "depth_rule max_depth cur [] = True"
| "depth_rule max_depth cur (Get u d # evs) =
     (0 \<le> d \<and> d \<le> max_depth \<and> depth_rule max_depth (Some d) evs)"
| "depth_rule max_depth cur (DiscPut u d' # evs) =
     ((case cur of None \<Rightarrow> False | Some d \<Rightarrow> d < max_depth \<and> d' = d + 1)
      \<and> depth_rule max_depth cur evs)"
| "depth_rule max_depth cur (TaskDone # evs) = depth_rule max_depth None evs"
| "depth_rule max_depth cur (ev # evs) = depth_rule max_depth cur evs"

text \<open>
  \<open>in_order busy evs\<close>: the events come in rounds. A round is a successful test of
  \<^verbatim>\<open>has_pending\<close>, the taking of an item, events of the processing of that item, and one
  \<^verbatim>\<open>task_done\<close>, which ends the round. Items are put on either queue only within a round,
  so before its \<^verbatim>\<open>task_done\<close>; \<^verbatim>\<open>has_pending\<close> is tested only between rounds; and a failed
  test is the last event (\<open>busy\<close> says whether a round is open).
\<close>

fun in_order :: "bool \<Rightarrow> cevent list \<Rightarrow> bool" where
  "in_order busy [] = True"
| "in_order busy (HasPending b # evs) =
     (\<not> busy \<and> (if b then (case evs of [] \<Rightarrow> True | Get u d # evs' \<Rightarrow> in_order True evs' | _ \<Rightarrow> False)
                else evs = []))"
| "in_order busy (Get u d # evs) = False"
| "in_order busy (TaskDone # evs) = (busy \<and> in_order False evs)"
| "in_order busy (ev # evs) = (busy \<and> in_order busy evs)"

definition task_dones :: "cevent list \<Rightarrow> nat" where
  "task_dones evs = length (filter (\<lambda>ev. ev = TaskDone) evs)"

section \<open>Definitions: notions used to state and prove the properties of the crawler\<close>

text \<open>The events that the processing of an item of depth \<open>depth\<close> may produce before its
  \<^verbatim>\<open>task_done\<close>: no test of \<^verbatim>\<open>has_pending\<close>, no \<^verbatim>\<open>get_url\<close>, no \<^verbatim>\<open>task_done\<close>, and an item
  put on the discovery queue only if \<open>depth < max_depth\<close>, with depth \<open>depth + 1\<close>.\<close>

fun body_event :: "int \<Rightarrow> int \<Rightarrow> cevent \<Rightarrow> bool" where
  "body_event max_depth depth (HasPending b) = False"
| "body_event max_depth depth (Get u d) = False"
| "body_event max_depth depth TaskDone = False"
| "body_event max_depth depth (DiscPut u d') = (depth < max_depth \<and> d' = depth + 1)"
| "body_event max_depth depth ev = True"

text \<open>The invariant of the discovery queue: the depths of the waiting items satisfy \<open>P\<close>,
  and the counter of unfinished tasks counts the waiting items and the \<open>k\<close> items that are
  being processed.\<close>

definition dq_inv :: "(int \<Rightarrow> bool) \<Rightarrow> nat \<Rightarrow> discovery_queue \<Rightarrow> bool" where
  "dq_inv P k q =
     (list_all (\<lambda>(u, d). P d) (pending q) \<and> unfinished q = length (pending q) + k)"

definition gets :: "cevent list \<Rightarrow> nat" where
  "gets evs = length (filter (\<lambda>ev. case ev of Get u d \<Rightarrow> True | _ \<Rightarrow> False) evs)"

text \<open>A run for the examples: the page of the seed links to a page, to the same page with a
  trailing slash and a tracking parameter, and to an image on another host; every later
  navigation times out.\<close>

definition example_seed :: string where
  "example_seed = ''https://example.com/''"

definition example_answers :: "nat \<Rightarrow> nav_result list" where
  "example_answers n =
     [Links [''https://example.com/about'', ''https://example.com/about/?utm_source=x'',
             ''https://cdn.example.com/logo.png'']]
     @ replicate n (GotoRaises (Exception ''timeout''))"

definition example_crawler :: crawler where
  "example_crawler =
     \<lparr>discovery_queue = \<lparr>pending = [(''https://example.com/'', 0)], unfinished = 1,
                           visited = {''https://example.com/''}\<rparr>,
      scrape_queue = new_queue, base_url = ''https://example.com/''\<rparr>"

definition example_trace :: "cevent list" where
  "example_trace =
     [HasPending True, Get ''https://example.com/'' 0, Goto ''https://example.com/'',
      LogInfo ''https://example.com/'', ScrapePut (Some ''https://example.com/''),
      EvalLinks ''https://example.com/'', DiscPut ''https://example.com/about'' 1, TaskDone,
      HasPending True, Get ''https://example.com/about'' 1, Goto ''https://example.com/about'',
      LogError ''https://example.com/about'', TaskDone, HasPending False]"

section \<open>Definitions: concurrent calls of \<^verbatim>\<open>add_url_async\<close>\<close>

text \<open>
  \<^verbatim>\<open>
  async def add_url_async(self, url: str, depth: int):
      norm = normalize_url(url)
      async with self.lock:
          if norm not in self.visited:
              await self.queue.put((norm, depth))
              self.visited.add(norm)
  \<close>
  (\<^verbatim>\<open>URLQueue.add_url_async\<close> is the same without the depth.) The tasks of an \<^verbatim>\<open>asyncio\<close>
  event loop run one at a time, and another task can run only where the running one
  awaits. The model cuts a call into the steps below and lets any other task run between any
  two of them; these are more interleavings than the event loop has, so what holds of all of
  them holds of the program. A call is at one of these places:
  \<^item> \<open>Called\<close>: the call is made, nothing of it has run;
  \<^item> \<open>Waiting\<close>: the URL is normalised, the task is at \<^verbatim>\<open>async with self.lock\<close>;
  \<^item> \<open>Holding\<close>: it has the lock and is about to test \<^verbatim>\<open>norm not in self.visited\<close>;
  \<^item> \<open>Putting\<close>: the test has succeeded, the task is at \<^verbatim>\<open>await self.queue.put\<close>;
  \<^item> \<open>Marking\<close>: the item is on the queue, \<^verbatim>\<open>self.visited.add(norm)\<close> comes next;
  \<^item> \<open>Returned\<close>: the lock is released and the call has returned;
  \<^item> \<open>Raised\<close>: \<^verbatim>\<open>normalize_url\<close> has raised.
  What comes with the URL (the depth, or nothing) is the payload \<open>'p\<close>; \<open>item_of\<close> makes the
  item that is put on the queue from the normalised URL and the payload.
\<close>

datatype 'p call =
    Called string 'p
  | Waiting string 'p
  | Holding string 'p
  | Putting string 'p
  | Marking string 'p
  | Returned
  | Raised error

text \<open>The queue, its lock (the number of the task that holds it), the calls, and a log of
  everything that was ever put on the queue through \<^verbatim>\<open>add_url\<close> or \<^verbatim>\<open>add_url_async\<close>.\<close>

record ('a, 'p) shared =
  qu :: "'a aqueue"
  lock :: "nat option"
  calls_of :: "'p call list"
  put_log :: "(string \<times> 'p) list"

definition new_shared :: "('a, 'p) shared" where
  "new_shared = \<lparr>qu = new_queue, lock = None, calls_of = [], put_log = []\<rparr>"

text \<open>
  What can happen to the queue:
  \<^item> \<open>Seed url p\<close>: a call of the synchronous \<^verbatim>\<open>add_url\<close>, which takes no lock; as in
    \<^verbatim>\<open>scraper_runner.main\<close> it is made before any call of \<^verbatim>\<open>add_url_async\<close>;
  \<^item> \<open>Invoke url p\<close>: a task calls \<^verbatim>\<open>add_url_async\<close>;
  \<^item> \<open>Run i\<close>: the scheduler lets call number \<open>i\<close> make its next step;
  \<^item> \<open>Consume\<close>: a consumer takes the first item off the queue (\<^verbatim>\<open>get_url\<close>).
  A step that cannot be made (a call that waits for a lock that is held, a call that has
  ended, an empty queue) has no result.
\<close>

datatype 'p action = Seed string 'p | Invoke string 'p | Run nat | Consume

definition run_call ::
  "(string \<Rightarrow> error + string) \<Rightarrow> (string \<Rightarrow> 'p \<Rightarrow> 'a) \<Rightarrow> nat \<Rightarrow> ('a, 'p) shared
     \<Rightarrow> ('a, 'p) shared option" where
  "run_call nrm item_of i s =
     (if i < length (calls_of s) then
        (case calls_of s ! i of
           Called url p \<Rightarrow>
             (case nrm url of
                Inl e \<Rightarrow> Some (s\<lparr>calls_of := (calls_of s)[i := Raised e]\<rparr>)
              | Inr n \<Rightarrow> Some (s\<lparr>calls_of := (calls_of s)[i := Waiting n p]\<rparr>))
         | Waiting n p \<Rightarrow>
             (if lock s = None
              then Some (s\<lparr>lock := Some i, calls_of := (calls_of s)[i := Holding n p]\<rparr>)
              else None)
         | Holding n p \<Rightarrow>
             (if n \<notin> visited (qu s)
              then Some (s\<lparr>calls_of := (calls_of s)[i := Putting n p]\<rparr>)
              else Some (s\<lparr>lock := None, calls_of := (calls_of s)[i := Returned]\<rparr>))
         | Putting n p \<Rightarrow>
             Some (s\<lparr>qu := put_nowait (item_of n p) (qu s),
                      put_log := put_log s @ [(n, p)],
                      calls_of := (calls_of s)[i := Marking n p]\<rparr>)
         | Marking n p \<Rightarrow>
             Some (s\<lparr>qu := (qu s)\<lparr>visited := insert n (visited (qu s))\<rparr>,
                      lock := None,
                      calls_of := (calls_of s)[i := Returned]\<rparr>)
         | Returned \<Rightarrow> None
         | Raised e \<Rightarrow> None)
      else None)"

definition act ::
  "(string \<Rightarrow> error + string) \<Rightarrow> (string \<Rightarrow> 'p \<Rightarrow> 'a) \<Rightarrow> 'p action \<Rightarrow> ('a, 'p) shared
     \<Rightarrow> ('a, 'p) shared option" where
  "act nrm item_of a s =
     (case a of
        Seed url p \<Rightarrow>
          (if calls_of s = [] then
             (case nrm url of
                Inl e \<Rightarrow> None
              | Inr n \<Rightarrow>
                  if n \<notin> visited (qu s)
                  then Some (s\<lparr>qu := (put_nowait (item_of n p) (qu s))
                                       \<lparr>visited := insert n (visited (qu s))\<rparr>,
                                put_log := put_log s @ [(n, p)]\<rparr>)
                  else Some s)
           else None)
      | Invoke url p \<Rightarrow> Some (s\<lparr>calls_of := calls_of s @ [Called url p]\<rparr>)
      | Run i \<Rightarrow> run_call nrm item_of i s
      | Consume \<Rightarrow>
          (case get_url (qu s) of
             None \<Rightarrow> None
           | Some (item, q) \<Rightarrow> Some (s\<lparr>qu := q\<rparr>)))"

text \<open>A schedule is a list of actions; it runs from a state as long as its steps can be
  made.\<close>

fun run_schedule ::
  "(string \<Rightarrow> error + string) \<Rightarrow> (string \<Rightarrow> 'p \<Rightarrow> 'a) \<Rightarrow> 'p action list \<Rightarrow> ('a, 'p) shared
     \<Rightarrow> ('a, 'p) shared option" where
  "run_schedule nrm item_of [] s = Some s"
| "run_schedule nrm item_of (a # as) s =
     (case act nrm item_of a s of
        None \<Rightarrow> None
      | Some s' \<Rightarrow> run_schedule nrm item_of as s')"

text \<open>The items of the two classes.\<close>

definition discovery_item :: "string \<Rightarrow> int \<Rightarrow> string \<times> int" where
  "discovery_item n depth = (n, depth)"

definition url_item :: "string \<Rightarrow> unit \<Rightarrow> string option" where
  "url_item n u = Some n"

text \<open>A call that is between taking the lock and releasing it.\<close>

fun critical :: "'p call \<Rightarrow> bool" where
  "critical (Holding n p) = True"
| "critical (Putting n p) = True"
| "critical (Marking n p) = True"
| "critical c = False"

text \<open>The invariant of the shared queue.\<close>

definition shared_inv :: "(string \<Rightarrow> 'p \<Rightarrow> 'a) \<Rightarrow> ('a, 'p) shared \<Rightarrow> bool" where
  "shared_inv item_of s =
     (distinct (map fst (put_log s))
      \<and> (\<exists>k\<le>length (put_log s).
            pending (qu s) = map (\<lambda>(n, p). item_of n p) (drop k (put_log s)))
      \<and> (\<forall>i<length (calls_of s). critical (calls_of s ! i) \<longrightarrow> lock s = Some i)
      \<and> (\<forall>i. lock s = Some i \<longrightarrow> i < length (calls_of s) \<and> critical (calls_of s ! i))
      \<and> (\<forall>n\<in>fst ` set (put_log s).
            n \<in> visited (qu s)
            \<or> (\<exists>i p. i < length (calls_of s) \<and> calls_of s ! i = Marking n p))
      \<and> (\<forall>i<length (calls_of s). \<forall>n p.
            calls_of s ! i = Putting n p \<longrightarrow> n \<notin> visited (qu s) \<and> n \<notin> fst ` set (put_log s)))"

section \<open>Theorems: the retry wrapper\<close>

subsection \<open>One step of the loop\<close>

lemma retry_from_exhausted:
  "retries < attempt \<Longrightarrow> retry_from f j retries d b attempt = (Inr None, [])"
  by (subst retry_from.simps) simp

lemma retry_from_success:
  "attempt \<le> retries \<Longrightarrow> f attempt = Inr v \<Longrightarrow>
   retry_from f j retries d b attempt = (Inr v, [Call attempt])"
  by (subst retry_from.simps) simp



subsection \<open>The number of calls\<close>


subsection \<open>The schedule while the attempts fail\<close>













text \<open>
  Claim C10. Called with \<open>retries \<le> 0\<close>, \<^verbatim>\<open>retry_async\<close> returns \<^verbatim>\<open>None\<close>: it raises
  nothing, and it neither calls the operation nor sleeps. The value it returns is the value it
  returns when the operation succeeds at once with \<^verbatim>\<open>None\<close>, so the caller, who sees only
  that value, cannot tell the two apart.
\<close>

theorem retry_async_no_attempts:
  fixes f :: "int \<Rightarrow> exn + 'a option"
  assumes "retries \<le> 0"
  shows "retry_async f jitter retries delay backoff = (Inr None, [])
    \<and> calls (snd (retry_async f jitter retries delay backoff)) = 0
    \<and> fst (retry_async f jitter retries delay backoff) =
        fst (retry_async (\<lambda>k. Inr None) jitter 3 delay backoff)
    \<and> calls (snd (retry_async (\<lambda>k. Inr None :: exn + 'a option) jitter 3 delay backoff)) = 1"
  using assms
  by (simp add: retry_async_def retry_from_exhausted retry_from_success calls_def)

theorem retry_async_no_attempts_witness:
  "(0::int) \<le> 0
   \<and> retry_async (\<lambda>k. Inl (Exception ''timeout'') :: exn + unit option) (\<lambda>k. 1 / 2) 0 2 2
       = (Inr None, [])"
  using retry_async_no_attempts [of 0 "\<lambda>k. Inl (Exception ''timeout'') :: exn + unit option" "\<lambda>k. 1 / 2" 2 2]
  by simp

section \<open>Theorems: the URL functions\<close>

subsection \<open>Strings\<close>

lemma before_notin [simp]: "c \<notin> set s \<Longrightarrow> before c s = s"
  by (auto simp: before_def)

lemma before_append [simp]: "c \<notin> set a \<Longrightarrow> before c (a @ c # b) = a"
  by (induction a) (auto simp: before_def)

lemma after_append [simp]: "c \<notin> set a \<Longrightarrow> after c (a @ c # b) = b"
  by (induction a) (auto simp: after_def)


lemma set_before: "set (before c s) \<subseteq> set s"
  by (auto simp: before_def dest: set_takeWhileD)

lemma set_after: "set (after c s) \<subseteq> set s"
  unfolding after_def
  by (meson in_set_dropD set_dropWhileD subsetI)

lemma in_beforeD: "x \<in> set (before c s) \<Longrightarrow> x \<in> set s"
  using set_before by blast

lemma in_afterD: "x \<in> set (after c s) \<Longrightarrow> x \<in> set s"
  using set_after by blast

lemma split_not_Nil [simp]: "split c s \<noteq> []"
  by (induction s) (auto split: list.splits)

lemma split_notin [simp]: "c \<notin> set s \<Longrightarrow> split c s = [s]"
  by (induction s) auto






subsection \<open>Lower case\<close>

lemma of_char_lower_char:
  "(of_char (lower_char c) :: nat) = (if is_upper c then of_char c + 32 else of_char c)"
  by (auto simp: lower_char_def is_upper_def Let_def)

lemma not_upper_lower_char [simp]: "\<not> is_upper (lower_char c)"
  unfolding is_upper_def Let_def of_char_lower_char
  by (auto simp: is_upper_def Let_def)

lemma lower_char_idem [simp]: "lower_char (lower_char c) = lower_char c"
  by (subst (1) lower_char_def) simp

lemma lower_idem [simp]: "lower (lower s) = lower s"
  by (simp add: lower_def)

lemma lower_char_eq_low:
  assumes "(of_char d :: nat) < 97" and "\<not> is_upper d"
  shows "lower_char c = d \<longleftrightarrow> c = d"
proof
  assume eq: "lower_char c = d"
  show "c = d"
  proof (cases "is_upper c")
    case True
    then have "(of_char (lower_char c) :: nat) \<ge> 97"
      unfolding of_char_lower_char by (auto simp: is_upper_def Let_def)
    with eq assms show ?thesis by simp
  next
    case False
    with eq show ?thesis by (simp add: lower_char_def)
  qed
next
  assume "c = d"
  with assms show "lower_char c = d" by (simp add: lower_char_def)
qed


lemma lower_Nil_iff [simp]: "lower s = [] \<longleftrightarrow> s = []"
  by (simp add: lower_def)



subsection \<open>Reading back what \<open>urlunsplit\<close> writes\<close>













subsection \<open>The path\<close>


lemma replace_dslash_Nil_iff [simp]: "replace_dslash p = [] \<longleftrightarrow> p = []"
  by (induction p rule: replace_dslash.induct) auto

lemma collapse_slashes_id: "\<not> has_dslash p \<Longrightarrow> collapse_slashes p = p"
  by (subst collapse_slashes.simps) simp



lemma collapse_slashes_Nil_iff [simp]: "collapse_slashes p = [] \<longleftrightarrow> p = []"
proof (induction p rule: collapse_slashes.induct)
  case (1 p)
  show ?case
  proof (cases "has_dslash p")
    case True
    then have "collapse_slashes p = collapse_slashes (replace_dslash p)"
      by (subst collapse_slashes.simps) simp
    with 1 True show ?thesis by simp
  next
    case False
    then show ?thesis by (simp add: collapse_slashes_id)
  qed
qed












subsection \<open>What a successful parse guarantees\<close>


lemma unsafe_lower_char [simp]: "unsafe_byte (lower_char c) \<longleftrightarrow> unsafe_byte c"
  unfolding unsafe_byte_def
  by (simp add: lower_char_eq_low is_upper_def)












subsection \<open>The query\<close>





lemma field_of_not_Nil [simp]: "field_of kv \<noteq> []"
  by (cases kv) (simp add: field_of_def)








subsection \<open>Normalising a normalised URL\<close>

lemma netloc_delim_lower_char [simp]: "netloc_delim (lower_char c) \<longleftrightarrow> netloc_delim c"
  unfolding netloc_delim_def by (simp add: lower_char_eq_low is_upper_def)

lemma lower_http [simp]: "lower ''http'' = ''http''"
  by (simp add: lower_def lower_char_def is_upper_def)








text \<open>The same happens through the query: \<^verbatim>\<open>parse_qsl\<close> decodes the escapes, and the
  fields are written back undecorated, so that an escaped \<^verbatim>\<open>&\<close> separates two fields at the
  next call.\<close>

lemma normalize_url_unquote_not_idempotent:
  "normalize_url ''http://h/?x=%26ref%3D1'' = Some (Inr ''http://h/?x=&ref=1'')
   \<and> normalize_url ''http://h/?x=&ref=1'' = Some (Inr ''http://h/?x='')"
  by code_simp

subsection \<open>The steps of \<open>normalize_url\<close>\<close>
















subsection \<open>The same-domain test\<close>





section \<open>Theorems: the crawler\<close>

subsection \<open>One call of \<open>add_url\<close>\<close>

lemma add_item_cases:
  "add_item n item q = (q, []) \<and> n \<in> visited q
   \<or> add_item n item q =
        (q\<lparr>pending := pending q @ [item], unfinished := unfinished q + 1,
           visited := insert n (visited q)\<rparr>, [item]) \<and> n \<notin> visited q"
  by (simp add: add_item_def put_nowait_def)

lemma DiscoveryQueue_add_url_puts:
  assumes "DiscoveryQueue_add_url nrm url d q = Inr (q', puts)"
  shows "list_all (\<lambda>(u, d'). d' = d) puts"
proof -
  from assms obtain n where n: "add_item n (n, d) q = (q', puts)"
    by (auto simp: DiscoveryQueue_add_url_def split: sum.splits)
  from add_item_cases [of n "(n, d)" q] n show ?thesis by auto
qed

lemma DiscoveryQueue_add_url_inv:
  assumes "DiscoveryQueue_add_url nrm url d q = Inr (q', puts)"
    and "dq_inv P k q" and "P d"
  shows "dq_inv P k q'"
proof -
  from assms(1) obtain n where n: "add_item n (n, d) q = (q', puts)"
    by (auto simp: DiscoveryQueue_add_url_def split: sum.splits)
  from add_item_cases [of n "(n, d)" q] n assms(2,3)
  show "dq_inv P k q'" by (auto simp: dq_inv_def)
qed

subsection \<open>The loop over the links\<close>

text \<open>The loop either stops at a link, skips it, or adds it and goes on.\<close>

lemma enqueue_links_Cons_cases:
  obtains (stop) "enqueue_links ops base depth (link # links) q = (True, q, [])"
  | (skip) "enqueue_links ops base depth (link # links) q = enqueue_links ops base depth links q"
  | (add) link' q1 puts where
      "DiscoveryQueue_add_url (normalize_url_of ops) link' (depth + 1) q = Inr (q1, puts)"
      "enqueue_links ops base depth (link # links) q =
         (fst (enqueue_links ops base depth links q1),
          fst (snd (enqueue_links ops base depth links q1)),
          map (\<lambda>(u, d). DiscPut u d) puts @ snd (snd (enqueue_links ops base depth links q1)))"
proof (cases "normalize_url_of ops link")
  case (Inl e)
  then show ?thesis by (intro stop) simp
next
  case n: (Inr link')
  show ?thesis
  proof (cases "is_internal_url_of ops link' base")
    case (Inl e)
    with n show ?thesis by (intro stop) simp
  next
    case i: (Inr internal)
    show ?thesis
    proof (cases internal)
      case False
      with n i show ?thesis by (intro skip) simp
    next
      case it: True
      show ?thesis
      proof (cases "is_probably_html_url_of ops link'")
        case (Inl e)
        with n i it show ?thesis by (intro stop) simp
      next
        case h: (Inr html)
        show ?thesis
        proof (cases html)
          case False
          with n i it h show ?thesis by (intro skip) simp
        next
          case ht: True
          show ?thesis
          proof (cases "DiscoveryQueue_add_url (normalize_url_of ops) link' (depth + 1) q")
            case (Inl e)
            with n i it h ht show ?thesis by (intro stop) simp
          next
            case (Inr r)
            obtain q1 puts where r: "r = (q1, puts)" by (cases r)
            show ?thesis
              using n i it h ht Inr r
              by (intro add [of link' q1 puts]) (simp_all add: split_def Let_def)
          qed
        qed
      qed
    qed
  qed
qed

lemma enqueue_links_events:
  "depth < md \<Longrightarrow>
   list_all (body_event md depth) (snd (snd (enqueue_links ops base depth links q)))"
proof (induction links arbitrary: q)
  case Nil
  then show ?case by simp
next
  case (Cons link links)
  show ?case
  proof (cases rule: enqueue_links_Cons_cases [of ops base depth link links q])
    case stop
    then show ?thesis by simp
  next
    case skip
    with Cons show ?thesis by simp
  next
    case (add link' q1 puts)
    have "list_all (body_event md depth) (map (\<lambda>(u, d). DiscPut u d) puts)"
      using DiscoveryQueue_add_url_puts [OF add(1)] Cons.prems by (auto simp: list_all_iff)
    with Cons add(2) show ?thesis by simp
  qed
qed

lemma enqueue_links_inv:
  "dq_inv P k q \<Longrightarrow> P (depth + 1) \<Longrightarrow>
   dq_inv P k (fst (snd (enqueue_links ops base depth links q)))"
proof (induction links arbitrary: q)
  case Nil
  then show ?case by simp
next
  case (Cons link links)
  show ?case
  proof (cases rule: enqueue_links_Cons_cases [of ops base depth link links q])
    case stop
    with Cons.prems show ?thesis by simp
  next
    case skip
    with Cons show ?thesis by simp
  next
    case (add link' q1 puts)
    have "dq_inv P k q1"
      using add(1) Cons.prems by (rule DiscoveryQueue_add_url_inv)
    with Cons add(2) show ?thesis by simp
  qed
qed

subsection \<open>Events of the processing of one item\<close>

lemma depth_rule_body:
  "list_all (body_event md d) evs \<Longrightarrow>
   depth_rule md (Some d) (evs @ rest) = depth_rule md (Some d) rest"
proof (induction evs)
  case Nil
  then show ?case by simp
next
  case (Cons ev evs)
  then show ?case by (cases ev) simp_all
qed

lemma in_order_body:
  "list_all (body_event md d) evs \<Longrightarrow> in_order True (evs @ rest) = in_order True rest"
proof (induction evs)
  case Nil
  then show ?case by simp
next
  case (Cons ev evs)
  then show ?case by (cases ev) simp_all
qed

lemma task_dones_body: "list_all (body_event md d) evs \<Longrightarrow> task_dones evs = 0"
proof (induction evs)
  case Nil
  then show ?case by (simp add: task_dones_def)
next
  case (Cons ev evs)
  then show ?case by (cases ev) (simp_all add: task_dones_def)
qed

lemma gets_body: "list_all (body_event md d) evs \<Longrightarrow> gets evs = 0"
proof (induction evs)
  case Nil
  then show ?case by (simp add: gets_def)
next
  case (Cons ev evs)
  then show ?case by (cases ev) (simp_all add: gets_def)
qed

lemma task_dones_append: "task_dones (xs @ ys) = task_dones xs + task_dones ys"
  by (simp add: task_dones_def)

lemma gets_append: "gets (xs @ ys) = gets xs + gets ys"
  by (simp add: gets_def)

lemma body_event_DiscPut:
  "list_all (body_event md d) evs \<Longrightarrow> DiscPut u d' \<in> set evs \<Longrightarrow> d < md \<and> d' = d + 1"
  by (auto simp: list_all_iff)

lemma body_event_not_TaskDone:
  "list_all (body_event md d) evs \<Longrightarrow> TaskDone \<notin> set evs"
  by (auto simp: list_all_iff)

lemma body_event_ScrapePut: "list_all (body_event md d) (map ScrapePut puts)"
  by (induction puts) simp_all

text \<open>The \<^verbatim>\<open>try\<close> statement, case by case.\<close>

lemma try_body_cases:
  obtains (goto_raises) e where "nav = GotoRaises e"
      "try_body ops md nav url depth c = (c, [Goto url, LogError url])"
  | (add_raises) "try_body ops md nav url depth c = (c, [Goto url, LogInfo url, LogError url])"
  | (no_links) sq puts where
      "URLQueue_add_url (normalize_url_of ops) url (scrape_queue c) = Inr (sq, puts)"
      "try_body ops md nav url depth c =
         (c\<lparr>scrape_queue := sq\<rparr>,
          [Goto url, LogInfo url] @ map ScrapePut puts @ [EvalLinks url] @
          (case nav of Links links \<Rightarrow> [] | _ \<Rightarrow> [LogError url]))"
      "\<forall>links. nav = Links links \<longrightarrow> \<not> depth < md"
  | (links) sq puts links where
      "URLQueue_add_url (normalize_url_of ops) url (scrape_queue c) = Inr (sq, puts)"
      "nav = Links links" "depth < md"
      "try_body ops md nav url depth c =
         (c\<lparr>scrape_queue := sq,
            discovery_queue := fst (snd (enqueue_links ops (base_url c) depth links (discovery_queue c)))\<rparr>,
          [Goto url, LogInfo url] @ map ScrapePut puts @ [EvalLinks url] @
          snd (snd (enqueue_links ops (base_url c) depth links (discovery_queue c))) @
          (if fst (enqueue_links ops (base_url c) depth links (discovery_queue c))
           then [LogError url] else []))"
proof (cases nav)
  case (GotoRaises e)
  then show ?thesis by (intro goto_raises [of e]) simp_all
next
  case (EvalRaises e)
  show ?thesis
  proof (cases "URLQueue_add_url (normalize_url_of ops) url (scrape_queue c)")
    case (Inl e')
    with EvalRaises show ?thesis by (intro add_raises) simp
  next
    case (Inr r)
    obtain sq puts where r: "r = (sq, puts)" by (cases r)
    with EvalRaises Inr show ?thesis
      by (intro no_links [of sq puts]) (simp_all add: Let_def)
  qed
next
  case (Links links)
  show ?thesis
  proof (cases "URLQueue_add_url (normalize_url_of ops) url (scrape_queue c)")
    case (Inl e')
    with Links show ?thesis by (intro add_raises) simp
  next
    case (Inr r)
    obtain sq puts where r: "r = (sq, puts)" by (cases r)
    show ?thesis
    proof (cases "depth < md")
      case False
      with Links Inr r show ?thesis
        by (intro no_links [of sq puts]) (simp_all add: Let_def)
    next
      case True
      with Links Inr r show ?thesis
        by (intro links [of sq puts links]) (simp_all add: Let_def split_def)
    qed
  qed
qed

lemma try_body_events:
  "list_all (body_event md depth) (snd (try_body ops md nav url depth c))"
proof (cases rule: try_body_cases [of nav ops md url depth c])
  case (goto_raises e)
  then show ?thesis by simp
next
  case add_raises
  then show ?thesis by simp
next
  case (no_links sq puts)
  then show ?thesis by (cases nav) (simp_all add: body_event_ScrapePut)
next
  case (links sq puts links)
  with enqueue_links_events [OF links(3), of ops "base_url c" links "discovery_queue c"]
  show ?thesis by (simp add: body_event_ScrapePut)
qed

lemma try_body_inv:
  assumes "dq_inv P k (discovery_queue c)" and "depth < md \<longrightarrow> P (depth + 1)"
  shows "dq_inv P k (discovery_queue (fst (try_body ops md nav url depth c)))
         \<and> base_url (fst (try_body ops md nav url depth c)) = base_url c"
proof (cases rule: try_body_cases [of nav ops md url depth c])
  case (goto_raises e)
  with assms show ?thesis by simp
next
  case add_raises
  with assms show ?thesis by simp
next
  case (no_links sq puts)
  with assms show ?thesis by simp
next
  case (links sq puts links)
  with assms enqueue_links_inv [of P k "discovery_queue c" depth ops "base_url c" links]
  show ?thesis by simp
qed

lemma crawl_item_events:
  "snd (crawl_item ops md nav url depth c) = snd (try_body ops md nav url depth c) @ [TaskDone]"
  by (simp add: crawl_item_def split_def Let_def split: sum.splits)

lemma crawl_item_ok:
  assumes "dq_inv P (Suc k) (discovery_queue c)" and "depth < md \<longrightarrow> P (depth + 1)"
  shows "\<exists>c'. fst (crawl_item ops md nav url depth c) = Inr c'
           \<and> dq_inv P k (discovery_queue c') \<and> base_url c' = base_url c"
proof -
  define c1 where "c1 = fst (try_body ops md nav url depth c)"
  from try_body_inv [OF assms, of ops nav url]
  have inv: "dq_inv P (Suc k) (discovery_queue c1)" and b: "base_url c1 = base_url c"
    by (simp_all add: c1_def)
  from inv have "unfinished (discovery_queue c1) \<noteq> 0" by (simp add: dq_inv_def)
  then have td: "task_done (discovery_queue c1) =
      Inr ((discovery_queue c1)\<lparr>unfinished := unfinished (discovery_queue c1) - 1\<rparr>)"
    by (simp add: task_done_def)
  have "fst (crawl_item ops md nav url depth c) =
      Inr (c1\<lparr>discovery_queue := (discovery_queue c1)\<lparr>unfinished := unfinished (discovery_queue c1) - 1\<rparr>\<rparr>)"
    using td by (simp add: crawl_item_def split_def Let_def c1_def)
  moreover have "dq_inv P k ((discovery_queue c1)\<lparr>unfinished := unfinished (discovery_queue c1) - 1\<rparr>)"
    using inv by (simp add: dq_inv_def)
  ultimately show ?thesis using b by simp
qed

subsection \<open>The loop\<close>

lemma start_crawling_exit:
  "\<not> has_pending (discovery_queue c) \<Longrightarrow>
   start_crawling ops md navs c = (Exited c, [HasPending False])"
  by (subst start_crawling.simps) simp

lemma start_crawling_out_of_answers:
  "has_pending (discovery_queue c) \<Longrightarrow>
   start_crawling ops md [] c = (Running c, [HasPending True])"
  by (subst start_crawling.simps) simp

lemma start_crawling_step:
  assumes "pending (discovery_queue c) = (url, depth) # rest"
    and "fst (crawl_item ops md nav url depth (c\<lparr>discovery_queue := (discovery_queue c)\<lparr>pending := rest\<rparr>\<rparr>))
           = Inr c'"
  shows "start_crawling ops md (nav # navs) c =
           (fst (start_crawling ops md navs c'),
            HasPending True # Get url depth #
            snd (crawl_item ops md nav url depth (c\<lparr>discovery_queue := (discovery_queue c)\<lparr>pending := rest\<rparr>\<rparr>))
            @ snd (start_crawling ops md navs c'))"
proof -
  obtain r evs where ci: "crawl_item ops md nav url depth
      (c\<lparr>discovery_queue := (discovery_queue c)\<lparr>pending := rest\<rparr>\<rparr>) = (r, evs)"
    by (cases "crawl_item ops md nav url depth (c\<lparr>discovery_queue := (discovery_queue c)\<lparr>pending := rest\<rparr>\<rparr>)")
  with assms(2) have r: "r = Inr c'" by simp
  show ?thesis
    using assms(1) ci r
    by (subst start_crawling.simps) (simp add: has_pending_def get_url_def split_def Let_def)
qed

lemma start_crawling_not_Nil: "snd (start_crawling ops md navs c) \<noteq> []"
  by (subst start_crawling.simps)
    (auto split: list.splits option.splits prod.splits sum.splits simp: Let_def)

lemma start_crawling_inv:
  assumes "dq_inv P 0 (discovery_queue c)" and "\<forall>d. P d \<and> d < md \<longrightarrow> P (d + 1)"
  shows "in_order False (snd (start_crawling ops md navs c))
     \<and> task_dones (snd (start_crawling ops md navs c)) = gets (snd (start_crawling ops md navs c))
     \<and> (\<forall>e c'. fst (start_crawling ops md navs c) \<noteq> Escaped e c')
     \<and> (\<forall>c'. fst (start_crawling ops md navs c) = Exited c' \<longrightarrow>
           pending (discovery_queue c') = [] \<and> unfinished (discovery_queue c') = 0
           \<and> last (snd (start_crawling ops md navs c)) = HasPending False)
     \<and> ((\<forall>d. P d \<longrightarrow> 0 \<le> d \<and> d \<le> md) \<longrightarrow>
           depth_rule md None (snd (start_crawling ops md navs c)))"
  using assms(1)
proof (induction navs arbitrary: c)
  case Nil
  then show ?case
    by (cases "has_pending (discovery_queue c)")
      (auto simp: start_crawling_exit start_crawling_out_of_answers has_pending_def dq_inv_def
        task_dones_def gets_def)
next
  case (Cons nav navs)
  show ?case
  proof (cases "pending (discovery_queue c)")
    case Nil
    with Cons.prems show ?thesis
      by (auto simp: start_crawling_exit has_pending_def dq_inv_def task_dones_def gets_def)
  next
    case (Cons item rest)
    obtain url depth where item: "item = (url, depth)" by (cases item)
    define c0 where "c0 = c\<lparr>discovery_queue := (discovery_queue c)\<lparr>pending := rest\<rparr>\<rparr>"
    from Cons.prems Cons item have Pd: "P depth"
      and inv0: "dq_inv P (Suc 0) (discovery_queue c0)"
      by (auto simp: dq_inv_def c0_def)
    have step: "depth < md \<longrightarrow> P (depth + 1)" using Pd assms(2) by blast
    from crawl_item_ok [OF inv0 step, of ops nav url] obtain c' where
      ci: "fst (crawl_item ops md nav url depth c0) = Inr c'"
      and inv': "dq_inv P 0 (discovery_queue c')"
      by blast
    define evs where "evs = snd (try_body ops md nav url depth c0)"
    have ev: "list_all (body_event md depth) evs"
      unfolding evs_def by (rule try_body_events)
    have st: "start_crawling ops md (nav # navs) c =
           (fst (start_crawling ops md navs c'),
            HasPending True # Get url depth # (evs @ [TaskDone]) @ snd (start_crawling ops md navs c'))"
      using start_crawling_step [of c url depth rest ops md nav c' navs] Cons item ci
      by (simp add: c0_def crawl_item_events evs_def)
    note IH = Cons.IH [OF inv']
    note ne = start_crawling_not_Nil [of ops md navs c']
    have cnt: "task_dones (evs @ [TaskDone]) = 1" "gets (evs @ [TaskDone]) = 0"
      using task_dones_body [OF ev] gets_body [OF ev]
      by (simp_all add: task_dones_append gets_append) (simp_all add: task_dones_def gets_def)
    have "task_dones (snd (start_crawling ops md (nav # navs) c)) =
          gets (snd (start_crawling ops md (nav # navs) c))"
      unfolding st using IH cnt
      by (simp add: task_dones_append gets_append del: append_assoc)
        (simp add: task_dones_def gets_def)
    moreover have "(\<forall>d. P d \<longrightarrow> 0 \<le> d \<and> d \<le> md) \<longrightarrow>
           depth_rule md None (snd (start_crawling ops md (nav # navs) c))"
      unfolding st using IH Pd by (simp add: depth_rule_body [OF ev])
    moreover have "in_order False (snd (start_crawling ops md (nav # navs) c))"
      unfolding st using IH by (simp add: in_order_body [OF ev])
    ultimately show ?thesis
      using IH ne by (simp add: st)
  qed
qed

subsection \<open>A run from the seed\<close>

lemma seeded_crawler_inv:
  assumes "seeded_crawler ops seed = Inr c" and "P 0"
  shows "dq_inv P 0 (discovery_queue c)" and "\<exists>n. pending (discovery_queue c) = [(n, 0)]"
proof -
  from assms(1) obtain n where
    "c = \<lparr>discovery_queue = fst (add_item n (n, 0) new_queue), scrape_queue = new_queue,
           base_url = seed\<rparr>"
    by (auto simp: seeded_crawler_def DiscoveryQueue_add_url_def split: sum.splits prod.splits)
      (metis fst_conv)
  then have "discovery_queue c = \<lparr>pending = [(n, 0)], unfinished = 1, visited = {n}\<rparr>"
    by (simp add: add_item_def new_queue_def put_nowait_def)
  with assms(2) show "dq_inv P 0 (discovery_queue c)" "\<exists>n. pending (discovery_queue c) = [(n, 0)]"
    by (simp_all add: dq_inv_def)
qed

lemma depth_rule_Get:
  "depth_rule md cur evs \<Longrightarrow> Get u d \<in> set evs \<Longrightarrow> 0 \<le> d \<and> d \<le> md"
proof (induction evs arbitrary: cur)
  case Nil
  then show ?case by simp
next
  case (Cons ev evs)
  then show ?case by (cases ev) auto
qed

lemma depth_rule_DiscPut:
  "depth_rule md cur evs \<Longrightarrow> \<forall>d. cur = Some d \<longrightarrow> 0 \<le> d \<Longrightarrow> DiscPut u d' \<in> set evs \<Longrightarrow>
   0 < d' \<and> d' \<le> md"
proof (induction evs arbitrary: cur)
  case Nil
  then show ?case by simp
next
  case (Cons ev evs)
  show ?case
  proof (cases ev)
    case (Get v e)
    with Cons.prems have "depth_rule md (Some e) evs" "0 \<le> e" "DiscPut u d' \<in> set evs"
      by simp_all
    then show ?thesis using Cons.IH [of "Some e"] by simp
  next
    case (DiscPut v e)
    with Cons.prems show ?thesis using Cons.IH [of cur] by (auto split: option.splits)
  next
    case TaskDone
    with Cons.prems show ?thesis using Cons.IH [of None] by simp
  qed (use Cons in auto)
qed

text \<open>
  Claim C3. In a run that starts from one seed at depth 0, with \<open>MAX_DEPTH \<ge> 0\<close>: every
  item taken from the discovery queue has a depth from 0 to \<open>MAX_DEPTH\<close>; every item put on
  it has a depth from 1 to \<open>MAX_DEPTH\<close>, is put while an item of a depth \<open>d < MAX_DEPTH\<close> is
  processed and has depth \<open>d + 1\<close>. In every state, processing an item of depth \<open>MAX_DEPTH\<close>
  puts nothing on the discovery queue.
\<close>

theorem crawl_depth_bound:
  assumes "0 \<le> max_depth" and "seeded_crawler ops seed = Inr c"
  shows "(\<exists>n. pending (discovery_queue c) = [(n, 0)])
    \<and> depth_rule max_depth None (snd (start_crawling ops max_depth navs c))
    \<and> (\<forall>u d. Get u d \<in> set (snd (start_crawling ops max_depth navs c)) \<longrightarrow>
          0 \<le> d \<and> d \<le> max_depth)
    \<and> (\<forall>u d. DiscPut u d \<in> set (snd (start_crawling ops max_depth navs c)) \<longrightarrow>
          0 < d \<and> d \<le> max_depth)
    \<and> (\<forall>nav url c0 u d. DiscPut u d \<notin> set (snd (crawl_item ops max_depth nav url max_depth c0)))
    \<and> (\<forall>nav url depth c0 u d.
          DiscPut u d \<in> set (snd (crawl_item ops max_depth nav url depth c0)) \<longrightarrow>
          depth < max_depth \<and> d = depth + 1)"
proof -
  let ?P = "\<lambda>d. 0 \<le> d \<and> d \<le> max_depth"
  have inv: "dq_inv ?P 0 (discovery_queue c)" and seed: "\<exists>n. pending (discovery_queue c) = [(n, 0)]"
    using seeded_crawler_inv [OF assms(2), of ?P] assms(1) by simp_all
  have "\<forall>d. ?P d \<and> d < max_depth \<longrightarrow> ?P (d + 1)" by simp
  from start_crawling_inv [OF inv this, of ops navs]
  have dr: "depth_rule max_depth None (snd (start_crawling ops max_depth navs c))" by simp
  have item: "depth < max_depth \<and> d = depth + 1"
    if "DiscPut u d \<in> set (snd (crawl_item ops max_depth nav url depth c0))"
    for nav url depth c0 u d
  proof -
    from that have "DiscPut u d \<in> set (snd (try_body ops max_depth nav url depth c0))"
      by (simp add: crawl_item_events)
    with try_body_events [of max_depth depth ops nav url c0] show ?thesis
      by (rule body_event_DiscPut)
  qed
  show ?thesis
    using seed dr depth_rule_Get [OF dr] depth_rule_DiscPut [OF dr] item by fastforce
qed

lemma example_run:
  "seeded_crawler url_utils example_seed = Inr example_crawler"
  "start_crawling url_utils MAX_DEPTH (example_answers 1) example_crawler =
     (Exited \<lparr>discovery_queue = \<lparr>pending = [], unfinished = 0,
                  visited = {''https://example.com/about'', ''https://example.com/''}\<rparr>,
              scrape_queue = \<lparr>pending = [Some ''https://example.com/''], unfinished = 1,
                  visited = {''https://example.com/''}\<rparr>,
              base_url = ''https://example.com/''\<rparr>,
      example_trace)"
  by code_simp+

theorem crawl_depth_bound_witness:
  "(0::int) \<le> MAX_DEPTH
   \<and> seeded_crawler url_utils example_seed = Inr example_crawler
   \<and> snd (start_crawling url_utils MAX_DEPTH (example_answers 1) example_crawler) = example_trace
   \<and> depth_rule MAX_DEPTH None example_trace"
proof -
  have m: "(0::int) \<le> MAX_DEPTH" by (simp add: MAX_DEPTH_def)
  from crawl_depth_bound [OF m example_run(1), of "example_answers 1"]
  have "depth_rule MAX_DEPTH None
          (snd (start_crawling url_utils MAX_DEPTH (example_answers 1) example_crawler))"
    by blast
  with m example_run show ?thesis by simp
qed

text \<open>
  Claim C6. The events of the processing of one item end with its \<^verbatim>\<open>task_done\<close>, which
  occurs once: whatever is put on the scrape queue or on the discovery queue for the item is
  put before it. In a run from the seed the events come in rounds (test of \<^verbatim>\<open>has_pending\<close>,
  \<^verbatim>\<open>get_url\<close>, processing, \<^verbatim>\<open>task_done\<close>): \<^verbatim>\<open>has_pending\<close> is tested only between rounds,
  when no item is being processed, and nothing is put on a queue between rounds. When the
  loop is left, the failed test is the last event, no item waits and no task is unfinished.
\<close>

theorem crawl_enqueue_before_done:
  "(\<exists>evs. snd (crawl_item ops max_depth nav url depth c0) = evs @ [TaskDone]
          \<and> TaskDone \<notin> set evs)
   \<and> (seeded_crawler ops seed = Inr c \<longrightarrow>
        in_order False (snd (start_crawling ops max_depth navs c))
        \<and> (\<forall>c'. fst (start_crawling ops max_depth navs c) = Exited c' \<longrightarrow>
              pending (discovery_queue c') = [] \<and> unfinished (discovery_queue c') = 0
              \<and> last (snd (start_crawling ops max_depth navs c)) = HasPending False))"
proof (intro conjI impI)
  show "\<exists>evs. snd (crawl_item ops max_depth nav url depth c0) = evs @ [TaskDone]
          \<and> TaskDone \<notin> set evs"
    using try_body_events [of max_depth depth ops nav url c0]
    by (auto simp: crawl_item_events dest: body_event_not_TaskDone)
next
  assume "seeded_crawler ops seed = Inr c"
  then have inv: "dq_inv (\<lambda>d. True) 0 (discovery_queue c)"
    by (rule seeded_crawler_inv) simp
  have "\<forall>d. True \<and> d < max_depth \<longrightarrow> True" by simp
  from start_crawling_inv [OF inv this, of ops navs]
  show "in_order False (snd (start_crawling ops max_depth navs c))"
    and "\<forall>c'. fst (start_crawling ops max_depth navs c) = Exited c' \<longrightarrow>
              pending (discovery_queue c') = [] \<and> unfinished (discovery_queue c') = 0
              \<and> last (snd (start_crawling ops max_depth navs c)) = HasPending False"
    by simp_all
qed

theorem crawl_enqueue_before_done_witness:
  "seeded_crawler url_utils example_seed = Inr example_crawler
   \<and> in_order False example_trace
   \<and> last example_trace = HasPending False"
proof -
  from crawl_enqueue_before_done [of url_utils MAX_DEPTH _ _ _ _ example_seed example_crawler
      "example_answers 1"] example_run(1)
  have "in_order False (snd (start_crawling url_utils MAX_DEPTH (example_answers 1) example_crawler))"
    and "\<forall>c'. fst (start_crawling url_utils MAX_DEPTH (example_answers 1) example_crawler) = Exited c' \<longrightarrow>
          last (snd (start_crawling url_utils MAX_DEPTH (example_answers 1) example_crawler)) = HasPending False"
    by blast+
  with example_run show ?thesis by simp
qed

text \<open>
  Claim C7. For every item and every answer of the browser, the processing of the item
  calls \<^verbatim>\<open>task_done\<close> exactly once. When the navigation fails, the events are the navigation,
  the logging of the error and \<^verbatim>\<open>task_done\<close>: nothing is put on the scrape queue or on the
  discovery queue, and the state changes in the counter of unfinished tasks only; the loop
  then goes on with the items that wait. In a run from the seed no exception leaves the loop,
  and there are as many calls of \<^verbatim>\<open>task_done\<close> as items taken from the queue, one at the end
  of each round.
\<close>

theorem crawl_item_done_once:
  "task_dones (snd (crawl_item ops max_depth nav url depth c0)) = 1
   \<and> snd (crawl_item ops max_depth (GotoRaises e) url depth c0) =
       [Goto url, LogError url, TaskDone]
   \<and> (unfinished (discovery_queue c0) \<noteq> 0 \<longrightarrow>
        fst (crawl_item ops max_depth (GotoRaises e) url depth c0) =
          Inr (c0\<lparr>discovery_queue :=
                    (discovery_queue c0)\<lparr>unfinished := unfinished (discovery_queue c0) - 1\<rparr>\<rparr>))
   \<and> (pending (discovery_queue c0) = (url, depth) # rest \<and> unfinished (discovery_queue c0) \<noteq> 0 \<longrightarrow>
        start_crawling ops max_depth (GotoRaises e # navs) c0 =
          (fst (start_crawling ops max_depth navs
                  (c0\<lparr>discovery_queue := (discovery_queue c0)
                        \<lparr>pending := rest, unfinished := unfinished (discovery_queue c0) - 1\<rparr>\<rparr>)),
           [HasPending True, Get url depth, Goto url, LogError url, TaskDone] @
           snd (start_crawling ops max_depth navs
                  (c0\<lparr>discovery_queue := (discovery_queue c0)
                        \<lparr>pending := rest, unfinished := unfinished (discovery_queue c0) - 1\<rparr>\<rparr>))))
   \<and> (seeded_crawler ops seed = Inr c \<longrightarrow>
        (\<forall>e' c'. fst (start_crawling ops max_depth navs c) \<noteq> Escaped e' c')
        \<and> in_order False (snd (start_crawling ops max_depth navs c))
        \<and> task_dones (snd (start_crawling ops max_depth navs c)) =
            gets (snd (start_crawling ops max_depth navs c)))"
proof (intro conjI impI)
  show "task_dones (snd (crawl_item ops max_depth nav url depth c0)) = 1"
    using task_dones_body [OF try_body_events [of max_depth depth ops nav url c0]]
    by (simp add: crawl_item_events task_dones_append) (simp add: task_dones_def)
next
  show "snd (crawl_item ops max_depth (GotoRaises e) url depth c0) =
       [Goto url, LogError url, TaskDone]"
    by (simp add: crawl_item_events)
next
  assume "unfinished (discovery_queue c0) \<noteq> 0"
  then show "fst (crawl_item ops max_depth (GotoRaises e) url depth c0) =
          Inr (c0\<lparr>discovery_queue :=
                    (discovery_queue c0)\<lparr>unfinished := unfinished (discovery_queue c0) - 1\<rparr>\<rparr>)"
    by (simp add: crawl_item_def task_done_def)
next
  assume a: "pending (discovery_queue c0) = (url, depth) # rest \<and> unfinished (discovery_queue c0) \<noteq> 0"
  let ?c1 = "c0\<lparr>discovery_queue := (discovery_queue c0)\<lparr>pending := rest\<rparr>\<rparr>"
  let ?c2 = "c0\<lparr>discovery_queue := (discovery_queue c0)
                        \<lparr>pending := rest, unfinished := unfinished (discovery_queue c0) - 1\<rparr>\<rparr>"
  have "fst (crawl_item ops max_depth (GotoRaises e) url depth ?c1) = Inr ?c2"
    using a by (simp add: crawl_item_def task_done_def)
  with a have "start_crawling ops max_depth (GotoRaises e # navs) c0 =
           (fst (start_crawling ops max_depth navs ?c2),
            HasPending True # Get url depth #
            snd (crawl_item ops max_depth (GotoRaises e) url depth ?c1)
            @ snd (start_crawling ops max_depth navs ?c2))"
    by (intro start_crawling_step) simp_all
  then show "start_crawling ops max_depth (GotoRaises e # navs) c0 =
          (fst (start_crawling ops max_depth navs ?c2),
           [HasPending True, Get url depth, Goto url, LogError url, TaskDone] @
           snd (start_crawling ops max_depth navs ?c2))"
    by (simp add: crawl_item_events)
next
  assume "seeded_crawler ops seed = Inr c"
  then have inv: "dq_inv (\<lambda>d. True) 0 (discovery_queue c)"
    by (rule seeded_crawler_inv) simp
  have "\<forall>d. True \<and> d < max_depth \<longrightarrow> True" by simp
  from start_crawling_inv [OF inv this, of ops navs]
  show "\<forall>e' c'. fst (start_crawling ops max_depth navs c) \<noteq> Escaped e' c'"
    and "in_order False (snd (start_crawling ops max_depth navs c))"
    and "task_dones (snd (start_crawling ops max_depth navs c)) =
            gets (snd (start_crawling ops max_depth navs c))"
    by simp_all
qed

theorem crawl_item_done_once_witness:
  "unfinished (discovery_queue example_crawler) \<noteq> 0
   \<and> crawl_item url_utils MAX_DEPTH (GotoRaises (Exception ''timeout'')) ''https://example.com/'' 0
       example_crawler =
       (Inr (example_crawler\<lparr>discovery_queue :=
               (discovery_queue example_crawler)\<lparr>unfinished := 0\<rparr>\<rparr>),
        [Goto ''https://example.com/'', LogError ''https://example.com/'', TaskDone])
   \<and> seeded_crawler url_utils example_seed = Inr example_crawler
   \<and> task_dones example_trace = gets example_trace"
proof -
  have u: "unfinished (discovery_queue example_crawler) \<noteq> 0"
    by (simp add: example_crawler_def)
  note inst = crawl_item_done_once [where ops = url_utils and max_depth = MAX_DEPTH
      and nav = "GotoRaises (Exception ''timeout'')" and url = "''https://example.com/''"
      and depth = 0 and ?c0.0 = example_crawler and e = "Exception ''timeout''"
      and seed = example_seed and c = example_crawler and navs = "example_answers 1"]
  from inst u have "crawl_item url_utils MAX_DEPTH (GotoRaises (Exception ''timeout''))
      ''https://example.com/'' 0 example_crawler =
       (Inr (example_crawler\<lparr>discovery_queue :=
               (discovery_queue example_crawler)
                 \<lparr>unfinished := unfinished (discovery_queue example_crawler) - 1\<rparr>\<rparr>),
        [Goto ''https://example.com/'', LogError ''https://example.com/'', TaskDone])"
    by (metis prod.collapse)
  moreover have "unfinished (discovery_queue example_crawler) - 1 = 0"
    by (simp add: example_crawler_def)
  moreover from inst example_run(1)
  have "task_dones (snd (start_crawling url_utils MAX_DEPTH (example_answers 1) example_crawler)) =
        gets (snd (start_crawling url_utils MAX_DEPTH (example_answers 1) example_crawler))"
    by blast
  ultimately show ?thesis using u example_run by simp
qed

end
